theory Spec2Isabelle
  imports Complex_Main "HOL-Library.Word" "HOL-Library.Sublist"
begin

section \<open>JSON visualizer: graph construction, layout and viewport zoom\<close>

text \<open>
  A shallow embedding of \<^verbatim>\<open>src/components/JsonVisualizer.tsx\<close>: the closure
  \<^verbatim>\<open>createGraph\<close> with its inner functions \<^verbatim>\<open>traverse\<close> and
  \<^verbatim>\<open>positionNodes\<close>, the message shown for an empty graph, and the wheel and touch
  handlers that change the zoom factor.
\<close>

subsection \<open>Strings and JSON values\<close>

text \<open>
  A JavaScript string is a sequence of UTF-16 code units. \<open>ascii\<close> embeds the ASCII
  literals of the source.
\<close>

type_synonym js_string = "16 word list"

definition ascii :: "string \<Rightarrow> js_string" where
  "ascii s = map (\<lambda>c. of_nat (of_char c)) s"

text \<open>
  The value returned by \<^verbatim>\<open>JSON.parse\<close>. An object is the list that
  \<^verbatim>\<open>Object.entries\<close> enumerates, in that order. The payload of a number is never
  inspected by the code modelled here, so its type is a parameter.
\<close>

datatype 'n json =
    JNull
  | JBoolean bool
  | JNumber 'n
  | JString js_string
  | JArray "'n json list"
  | JObject "(js_string \<times> 'n json) list"

text \<open>
  Template literals render the counter and the array index in decimal
  (\<^verbatim>\<open>`node-${nodeId++}`\<close>, \<^verbatim>\<open>`[${index}]`\<close>). JavaScript prints a non-negative
  integer below \<open>10^21\<close> as its decimal digits; counters and indices stay far below.
\<close>

definition digit :: "nat \<Rightarrow> 16 word" where
  "digit d = 48 + of_nat d"

function decimal :: "nat \<Rightarrow> js_string" where
  "decimal n = (if n < 10 then [digit n] else decimal (n div 10) @ [digit (n mod 10)])"
  by pat_completeness auto
termination
  by (relation "measure id") auto

declare decimal.simps [simp del]

definition node_name :: "nat \<Rightarrow> js_string" where
  "node_name n = ascii ''node-'' @ decimal n"

definition index_key :: "nat \<Rightarrow> js_string" where
  "index_key i = ascii ''['' @ decimal i @ ascii '']''"

text \<open>
  \<^verbatim>\<open>String.prototype.trim\<close> removes leading and trailing WhiteSpace and LineTerminator
  code points (ECMAScript 2015, 11.2 and 11.3); all of them are single code units.
\<close>

definition isWhiteSpace :: "16 word \<Rightarrow> bool" where
  "isWhiteSpace c \<longleftrightarrow>
     c \<in> {0x0009, 0x000A, 0x000B, 0x000C, 0x000D, 0x0020, 0x00A0, 0x1680,
          0x2000, 0x2001, 0x2002, 0x2003, 0x2004, 0x2005, 0x2006, 0x2007,
          0x2008, 0x2009, 0x200A, 0x2028, 0x2029, 0x202F, 0x205F, 0x3000, 0xFEFF}"

definition trim :: "js_string \<Rightarrow> js_string" where
  "trim s = rev (dropWhile isWhiteSpace (rev (dropWhile isWhiteSpace s)))"

text \<open>Truthiness of a string, and of an optional string (\<^verbatim>\<open>undefined\<close> is falsy).\<close>

definition truthy :: "js_string \<Rightarrow> bool" where
  "truthy s \<longleftrightarrow> s \<noteq> []"

fun truthy_opt :: "js_string option \<Rightarrow> bool" where
  "truthy_opt None = False"
| "truthy_opt (Some s) = truthy s"

subsection \<open>Graph nodes and edges\<close>

text \<open>
  The interfaces \<^verbatim>\<open>GraphNode\<close> and \<^verbatim>\<open>GraphEdge\<close>; each field keeps its name behind
  the prefix \<open>node_\<close> or \<open>edge_\<close>. The numeric fields only ever hold small non-negative
  integers, which JavaScript numbers represent exactly.
\<close>

datatype node_type = TObject | TArray | TString | TNumber | TBoolean | TNull | TRoot

record 'n GraphNode =
  node_id :: js_string
  node_key :: js_string
  node_value :: "'n json"
  node_type :: node_type
  node_x :: nat
  node_y :: nat
  node_width :: nat
  node_height :: nat
  node_children :: "js_string list"
  node_parent :: "js_string option"
  node_level :: nat
  node_isExpanded :: bool

datatype side = SRight | SBottom | SLeft | STop

record GraphEdge =
  edge_from :: js_string
  edge_to :: js_string
  edge_fromSide :: side
  edge_toSide :: side

text \<open>The variables \<^verbatim>\<open>nodes\<close>, \<^verbatim>\<open>edges\<close> and \<^verbatim>\<open>nodeId\<close> that \<^verbatim>\<open>traverse\<close> closes over.\<close>

record 'n closure =
  nodes :: "'n GraphNode list"
  edges :: "GraphEdge list"
  nodeId :: nat

subsection \<open>The traversal\<close>

text \<open>
  \<^verbatim>\<open>Array.isArray(value) ? 'array' : value === null ? 'null' : typeof value\<close>
\<close>

fun typeOf :: "'n json \<Rightarrow> node_type" where
  "typeOf (JArray xs) = TArray"
| "typeOf JNull = TNull"
| "typeOf (JObject es) = TObject"
| "typeOf (JString s) = TString"
| "typeOf (JNumber n) = TNumber"
| "typeOf (JBoolean b) = TBoolean"

fun Object_entries :: "'n json \<Rightarrow> (js_string \<times> 'n json) list" where
  "Object_entries (JObject es) = es"
| "Object_entries _ = []"

definition Object_keys :: "'n json \<Rightarrow> js_string list" where
  "Object_keys v = map fst (Object_entries v)"

fun items :: "'n json \<Rightarrow> 'n json list" where
  "items (JArray xs) = xs"
| "items _ = []"

definition hasChildren :: "'n json \<Rightarrow> bool" where
  "hasChildren v \<longleftrightarrow>
     (typeOf v = TObject \<and> v \<noteq> JNull \<and> length (Object_keys v) > 0) \<or>
     (typeOf v = TArray \<and> length (items v) > 0)"

text \<open>The preview rows: \<^verbatim>\<open>keys\<close> of lines 186.\<close>

definition preview_keys :: "'n json \<Rightarrow> js_string list" where
  "preview_keys v =
     (if typeOf v = TObject then Object_keys v
      else map (\<lambda>(i, _). index_key i) (enumerate 0 (items v)))"

definition extraHeight :: "js_string set \<Rightarrow> js_string \<Rightarrow> 'n json \<Rightarrow> nat" where
  "extraHeight expandedNodes currentId v =
     (if hasChildren v \<and> currentId \<in> expandedNodes
      then min (length (preview_keys v) * 25) 150 else 0)"

text \<open>
  \<^verbatim>\<open>nodes.find(n => n.id === parentId)\<close> followed by \<^verbatim>\<open>parentNode.children.push\<close>:
  the first node with that id is updated in place; nothing happens when there is none.
\<close>

fun push_child :: "js_string \<Rightarrow> js_string \<Rightarrow> 'n GraphNode list \<Rightarrow> 'n GraphNode list" where
  "push_child parentId currentId [] = []"
| "push_child parentId currentId (n # ns) =
     (if node_id n = parentId
      then n\<lparr>node_children := node_children n @ [currentId]\<rparr> # ns
      else n # push_child parentId currentId ns)"

text \<open>
  Lines 171 to 218 of \<^verbatim>\<open>traverse\<close>: take the next id, build the node, push it, and
  when there is a parent push the edge and register the child.
\<close>

definition emit ::
  "js_string set \<Rightarrow> 'n json \<Rightarrow> js_string \<Rightarrow> js_string option \<Rightarrow> nat \<Rightarrow> 'n closure \<Rightarrow> 'n closure" where
  "emit expandedNodes v k parentId lvl st =
     (let currentId = node_name (nodeId st);
          isExpanded = currentId \<in> expandedNodes;
          baseWidth = 220;
          baseHeight = 100;
          node = \<lparr>node_id = currentId, node_key = k, node_value = v, node_type = typeOf v,
                  node_x = 0, node_y = 0, node_width = baseWidth,
                  node_height = baseHeight + extraHeight expandedNodes currentId v,
                  node_children = [], node_parent = parentId, node_level = lvl,
                  node_isExpanded = isExpanded\<rparr>;
          st1 = st\<lparr>nodeId := nodeId st + 1, nodes := nodes st @ [node]\<rparr>
      in case parentId of
           None \<Rightarrow> st1
         | Some p \<Rightarrow>
             if truthy p
             then st1\<lparr>edges := edges st1 @
                         [\<lparr>edge_from = p, edge_to = currentId,
                           edge_fromSide = SRight, edge_toSide = SLeft\<rparr>],
                      nodes := push_child p currentId (nodes st1)\<rparr>
             else st1)"

text \<open>
  The call stack is finite: a call for which it has no room throws a
  \<^verbatim>\<open>RangeError\<close>, which ends every call in progress up to the nearest
  \<^verbatim>\<open>catch\<close>; what those calls have written to \<^verbatim>\<open>nodes\<close>, \<^verbatim>\<open>edges\<close> and
  \<^verbatim>\<open>nodeId\<close> stays written. A \<open>completion\<close> says whether a call returned or threw.
  \<^verbatim>\<open>Array.prototype.forEach\<close> calls the callback on the elements in order and stops at
  the first call that throws.
\<close>

datatype completion = Normal | RangeError

definition forEach :: "'a list \<Rightarrow> ('a \<Rightarrow> 's \<Rightarrow> completion \<times> 's) \<Rightarrow> 's \<Rightarrow> completion \<times> 's" where
  "forEach xs callbackfn st =
     foldl (\<lambda>(c, s) x. case c of Normal \<Rightarrow> callbackfn x s | RangeError \<Rightarrow> (RangeError, s))
           (Normal, st) xs"

text \<open>
  \<^verbatim>\<open>traverse\<close> itself. The closure is passed in and returned with the completion; the
  id that the source returns is used by no caller. \<open>stack\<close> is the number of nested calls
  of \<^verbatim>\<open>traverse\<close> for which the call stack has room below the call at hand: the
  recursive call throws when there is room for none, and runs with one less otherwise.
  The callbacks that run within one call (those of \<^verbatim>\<open>map\<close>, \<^verbatim>\<open>find\<close> and
  \<^verbatim>\<open>forEach\<close>) are taken to fit where the call itself did.
\<close>

function traverse ::
  "nat \<Rightarrow> js_string set \<Rightarrow> 'n json \<Rightarrow> js_string \<Rightarrow> js_string option \<Rightarrow> nat \<Rightarrow> 'n closure \<Rightarrow>
   completion \<times> 'n closure" where
  "traverse stack expandedNodes v k parentId lvl st =
     (let currentId = node_name (nodeId st);
          st1 = emit expandedNodes v k parentId lvl st
      in if hasChildren v \<and> currentId \<in> expandedNodes then
           (if typeOf v = TObject \<and> v \<noteq> JNull then
              forEach (Object_entries v)
                (\<lambda>(childKey, childValue) s.
                   if stack = 0 then (RangeError, s)
                   else traverse (stack - 1) expandedNodes childValue childKey
                          (Some currentId) (lvl + 1) s)
                st1
            else if typeOf v = TArray then
              forEach (enumerate 0 (items v))
                (\<lambda>(index, item) s.
                   if stack = 0 then (RangeError, s)
                   else traverse (stack - 1) expandedNodes item (index_key index)
                          (Some currentId) (lvl + 1) s)
                st1
            else (Normal, st1))
         else (Normal, st1))"
  by pat_completeness auto
termination
  by (relation "measure (\<lambda>(stack, E, v, k, p, l, s). stack)") auto

declare traverse.simps [simp del]

subsection \<open>The layout pass\<close>

text \<open>
  \<^verbatim>\<open>levelGroups\<close> is an object keyed by the level. Its values hold references to the
  node objects of \<^verbatim>\<open>nodes\<close>, modelled as positions in that array.
  \<^verbatim>\<open>Object.entries\<close> enumerates integer keys in ascending order, whatever the order
  of insertion, so the groups are kept as a list ordered by level; \<^verbatim>\<open>parseInt\<close>
  gives back the level the key was made from.
\<close>

fun group_push :: "nat \<Rightarrow> nat \<Rightarrow> (nat \<times> nat list) list \<Rightarrow> (nat \<times> nat list) list" where
  "group_push l i [] = [(l, [i])]"
| "group_push l i ((l', g) # gs) =
     (if l = l' then (l', g @ [i]) # gs
      else if l < l' then (l, [i]) # (l', g) # gs
      else (l', g) # group_push l i gs)"

definition levelGroups :: "'n GraphNode list \<Rightarrow> (nat \<times> nat list) list" where
  "levelGroups ns =
     foldl (\<lambda>gs i. group_push (node_level (ns ! i)) i gs) [] [0..<length ns]"

text \<open>
  The body of the inner \<^verbatim>\<open>forEach\<close>: the node is moved to column \<open>x\<close> and to the
  cursor, and the cursor advances. \<^verbatim>\<open>currentY\<close> is declared outside both iterations.
\<close>

definition place ::
  "nat \<Rightarrow> 'n GraphNode list \<times> nat \<Rightarrow> nat \<Rightarrow> 'n GraphNode list \<times> nat" where
  "place x = (\<lambda>(ns, currentY) i.
     (ns[i := (ns ! i)\<lparr>node_x := x, node_y := currentY\<rparr>],
      currentY + node_height (ns ! i) + 30))"

definition positionNodes :: "'n GraphNode list \<Rightarrow> 'n GraphNode list" where
  "positionNodes ns =
     (let levelWidth = 300
      in fst (foldl (\<lambda>acc (levelNum, levelNodes).
                       foldl (place (levelNum * levelWidth + 50)) acc levelNodes)
                    (ns, 50) (levelGroups ns)))"

subsection \<open>Building the graph\<close>

text \<open>
  \<^verbatim>\<open>createGraph\<close> reads the component state \<^verbatim>\<open>jsonInput\<close> and \<^verbatim>\<open>expandedNodes\<close>.
  \<^verbatim>\<open>JSON.parse\<close> is a parameter; \<open>None\<close> stands for the exception it throws on a
  text that is not JSON. \<open>stack\<close> is the room that the call stack has when
  \<^verbatim>\<open>traverse\<close> is first called. The \<^verbatim>\<open>catch\<close> has no binding and an empty body: it
  swallows the exception of \<^verbatim>\<open>JSON.parse\<close> and the \<^verbatim>\<open>RangeError\<close> of
  \<^verbatim>\<open>traverse\<close> alike, and the layout pass then runs on whatever has been pushed.
\<close>

definition createGraph ::
  "nat \<Rightarrow> (js_string \<Rightarrow> 'n json option) \<Rightarrow> js_string set \<Rightarrow> js_string \<Rightarrow>
   'n GraphNode list \<times> GraphEdge list" where
  "createGraph stack JSON_parse expandedNodes jsonInput =
     (let st0 = \<lparr>nodes = [], edges = [], nodeId = 0\<rparr>;
          st1 = (if truthy (trim jsonInput) then
                   (case JSON_parse jsonInput of
                      Some parsed \<Rightarrow>
                        snd (traverse stack expandedNodes parsed (ascii ''root'') None 0 st0)
                    | None \<Rightarrow> st0)
                 else st0)
      in (positionNodes (nodes st1), edges st1))"

text \<open>
  The overlay of the canvas (lines 890 to 894): present only when there are no nodes.
\<close>

definition overlay ::
  "nat \<Rightarrow> (js_string \<Rightarrow> 'n json option) \<Rightarrow> js_string set \<Rightarrow> js_string \<Rightarrow> string option" where
  "overlay stack JSON_parse expandedNodes jsonInput =
     (if length (fst (createGraph stack JSON_parse expandedNodes jsonInput)) = 0
      then Some (if truthy (trim jsonInput) then ''Invalid JSON format''
                 else ''Enter JSON to visualize'')
      else None)"

subsection \<open>Zoom\<close>

text \<open>
  A JavaScript number is \<^verbatim>\<open>NaN\<close>, an infinity or a finite value. The operations below
  follow ECMAScript on the special values and on overflow to an infinity; a finite result
  in range is not rounded, and negative zero is not distinguished from zero.
\<close>

datatype jsnum = NaN | PInf | NInf | Fin real

definition overflow :: "real \<Rightarrow> jsnum" where
  "overflow r = (if r \<ge> 2 ^ 1024 then PInf else if r \<le> - (2 ^ 1024) then NInf else Fin r)"

fun js_add :: "jsnum \<Rightarrow> jsnum \<Rightarrow> jsnum" where
  "js_add NaN _ = NaN"
| "js_add _ NaN = NaN"
| "js_add PInf NInf = NaN"
| "js_add NInf PInf = NaN"
| "js_add PInf _ = PInf"
| "js_add _ PInf = PInf"
| "js_add NInf _ = NInf"
| "js_add _ NInf = NInf"
| "js_add (Fin a) (Fin b) = overflow (a + b)"

fun js_neg :: "jsnum \<Rightarrow> jsnum" where
  "js_neg NaN = NaN"
| "js_neg PInf = NInf"
| "js_neg NInf = PInf"
| "js_neg (Fin a) = Fin (- a)"

definition js_sub :: "jsnum \<Rightarrow> jsnum \<Rightarrow> jsnum" where
  "js_sub a b = js_add a (js_neg b)"

fun js_mul :: "jsnum \<Rightarrow> jsnum \<Rightarrow> jsnum" where
  "js_mul NaN _ = NaN"
| "js_mul _ NaN = NaN"
| "js_mul (Fin a) (Fin b) = overflow (a * b)"
| "js_mul PInf (Fin b) = (if b = 0 then NaN else if b > 0 then PInf else NInf)"
| "js_mul NInf (Fin b) = (if b = 0 then NaN else if b > 0 then NInf else PInf)"
| "js_mul (Fin a) PInf = (if a = 0 then NaN else if a > 0 then PInf else NInf)"
| "js_mul (Fin a) NInf = (if a = 0 then NaN else if a > 0 then NInf else PInf)"
| "js_mul PInf PInf = PInf"
| "js_mul PInf NInf = NInf"
| "js_mul NInf PInf = NInf"
| "js_mul NInf NInf = PInf"

fun js_div :: "jsnum \<Rightarrow> jsnum \<Rightarrow> jsnum" where
  "js_div NaN _ = NaN"
| "js_div _ NaN = NaN"
| "js_div (Fin a) (Fin b) =
     (if b = 0 then (if a = 0 then NaN else if a > 0 then PInf else NInf) else overflow (a / b))"
| "js_div (Fin a) PInf = Fin 0"
| "js_div (Fin a) NInf = Fin 0"
| "js_div PInf (Fin b) = (if b \<ge> 0 then PInf else NInf)"
| "js_div NInf (Fin b) = (if b \<ge> 0 then NInf else PInf)"
| "js_div PInf PInf = NaN"
| "js_div PInf NInf = NaN"
| "js_div NInf PInf = NaN"
| "js_div NInf NInf = NaN"

fun Math_sqrt :: "jsnum \<Rightarrow> jsnum" where
  "Math_sqrt NaN = NaN"
| "Math_sqrt PInf = PInf"
| "Math_sqrt NInf = NaN"
| "Math_sqrt (Fin a) = (if a < 0 then NaN else Fin (sqrt a))"

definition Math_pow2 :: "jsnum \<Rightarrow> jsnum" where
  "Math_pow2 a = js_mul a a"

fun js_less :: "jsnum \<Rightarrow> jsnum \<Rightarrow> bool" where
  "js_less NaN _ = False"
| "js_less _ NaN = False"
| "js_less PInf _ = False"
| "js_less _ NInf = False"
| "js_less NInf _ = True"
| "js_less _ PInf = True"
| "js_less (Fin a) (Fin b) = (a < b)"

definition Math_min :: "jsnum \<Rightarrow> jsnum \<Rightarrow> jsnum" where
  "Math_min a b = (if a = NaN \<or> b = NaN then NaN else if js_less b a then b else a)"

definition Math_max :: "jsnum \<Rightarrow> jsnum \<Rightarrow> jsnum" where
  "Math_max a b = (if a = NaN \<or> b = NaN then NaN else if js_less a b then b else a)"

fun truthy_num :: "jsnum option \<Rightarrow> bool" where
  "truthy_num None = False"
| "truthy_num (Some NaN) = False"
| "truthy_num (Some (Fin a)) = (a \<noteq> 0)"
| "truthy_num (Some _) = True"

text \<open>
  The handlers \<^verbatim>\<open>handleWheel\<close>, \<^verbatim>\<open>handleTouchStart\<close>, \<^verbatim>\<open>handleTouchMove\<close> and
  \<^verbatim>\<open>handleTouchEnd\<close> over the state \<^verbatim>\<open>zoom\<close> and \<^verbatim>\<open>lastTouchDistance\<close>
  (\<open>None\<close> is \<^verbatim>\<open>null\<close>). The fields of the events are finite numbers, as the
  DOM declares them (\<^verbatim>\<open>double\<close>).
\<close>

record WheelEvent =
  ctrlKey :: bool
  metaKey :: bool
  deltaY :: real

record Touch =
  clientX :: real
  clientY :: real

record viewport =
  zoom :: jsnum
  lastTouchDistance :: "jsnum option"

definition handleWheel :: "WheelEvent \<Rightarrow> viewport \<Rightarrow> viewport" where
  "handleWheel e vp =
     (if ctrlKey e \<or> metaKey e then
        (let delta = (if js_less (Fin 0) (Fin (deltaY e)) then Fin 0.95 else Fin 1.05)
         in vp\<lparr>zoom := Math_max (Fin 0.1) (Math_min (Fin 3) (js_mul (zoom vp) delta))\<rparr>)
      else vp)"

definition getTouchDistance :: "Touch list \<Rightarrow> jsnum option" where
  "getTouchDistance touches =
     (if length touches < 2 then None
      else (let touch1 = touches ! 0; touch2 = touches ! 1
            in Some (Math_sqrt
                 (js_add (Math_pow2 (js_sub (Fin (clientX touch2)) (Fin (clientX touch1))))
                         (Math_pow2 (js_sub (Fin (clientY touch2)) (Fin (clientY touch1))))))))"

definition handleTouchStart :: "Touch list \<Rightarrow> viewport \<Rightarrow> viewport" where
  "handleTouchStart touches vp =
     (if length touches = 2 then vp\<lparr>lastTouchDistance := getTouchDistance touches\<rparr> else vp)"

definition handleTouchMove :: "Touch list \<Rightarrow> viewport \<Rightarrow> viewport" where
  "handleTouchMove touches vp =
     (if length touches = 2 \<and> truthy_num (lastTouchDistance vp) then
        (let distance = getTouchDistance touches
         in if truthy_num distance then
              (let rawScale = js_div (the distance) (the (lastTouchDistance vp));
                   dampedScale = js_add (Fin 1) (js_mul (js_sub rawScale (Fin 1)) (Fin 0.3))
               in vp\<lparr>zoom := Math_max (Fin 0.1) (Math_min (Fin 3) (js_mul (zoom vp) dampedScale)),
                     lastTouchDistance := distance\<rparr>)
            else vp)
      else vp)"

definition handleTouchEnd :: "viewport \<Rightarrow> viewport" where
  "handleTouchEnd vp = vp\<lparr>lastTouchDistance := None\<rparr>"

datatype gesture =
    Wheel WheelEvent
  | TouchStart "Touch list"
  | TouchMove "Touch list"
  | TouchEnd

fun dispatch :: "viewport \<Rightarrow> gesture \<Rightarrow> viewport" where
  "dispatch vp (Wheel e) = handleWheel e vp"
| "dispatch vp (TouchStart ts) = handleTouchStart ts vp"
| "dispatch vp (TouchMove ts) = handleTouchMove ts vp"
| "dispatch vp TouchEnd = handleTouchEnd vp"

section \<open>Auxiliary definitions\<close>

text \<open>
  Notions used to state and prove the properties below. \<open>children_of\<close> lists the
  children that the two \<^verbatim>\<open>forEach\<close> iterations of \<^verbatim>\<open>traverse\<close> visit, with their keys;
  \<open>new_node\<close> is the node literal of \<open>emit\<close>; \<open>build\<close> is the closure that the call
  \<^verbatim>\<open>traverse(parsed, 'root', undefined, 0)\<close> leaves behind, started on the fresh
  closure, and the call \<open>returns\<close> when it does not throw.
\<close>

definition children_of :: "'n json \<Rightarrow> (js_string \<times> 'n json) list" where
  "children_of v =
     (if typeOf v = TObject \<and> v \<noteq> JNull then Object_entries v
      else if typeOf v = TArray then map (\<lambda>(i, x). (index_key i, x)) (enumerate 0 (items v))
      else [])"

definition new_node ::
  "js_string set \<Rightarrow> 'n json \<Rightarrow> js_string \<Rightarrow> js_string option \<Rightarrow> nat \<Rightarrow> nat \<Rightarrow> 'n GraphNode" where
  "new_node E v k p l c =
     \<lparr>node_id = node_name c, node_key = k, node_value = v, node_type = typeOf v,
      node_x = 0, node_y = 0, node_width = 220,
      node_height = 100 + extraHeight E (node_name c) v,
      node_children = [], node_parent = p, node_level = l,
      node_isExpanded = (node_name c \<in> E)\<rparr>"

definition new_edge :: "js_string \<Rightarrow> js_string \<Rightarrow> GraphEdge" where
  "new_edge p c = \<lparr>edge_from = p, edge_to = c, edge_fromSide = SRight, edge_toSide = SLeft\<rparr>"

text \<open>
  \<open>core\<close> forgets the child list of a node, the only field that \<^verbatim>\<open>traverse\<close> changes
  after a node is pushed. \<open>ids_ok\<close>: the ids are \<open>node-0\<close>, \<open>node-1\<close>, ... up to the
  counter.
\<close>

definition core :: "'n GraphNode \<Rightarrow> 'n GraphNode" where
  "core n = n\<lparr>node_children := []\<rparr>"

definition ids_ok :: "'n closure \<Rightarrow> bool" where
  "ids_ok st \<longleftrightarrow> map node_id (nodes st) = map node_name [0..<nodeId st]"

text \<open>
  The layout pass seen as one sequence of placements \<open>(x, position in the node list)\<close>:
  \<open>placing\<close> is that sequence, \<open>place_all\<close> runs it, \<open>cost\<close> is the distance the
  cursor moves. \<open>level_members\<close> are the positions of the nodes of one level.
\<close>

definition cost :: "'n GraphNode list \<Rightarrow> (nat \<times> nat) list \<Rightarrow> nat" where
  "cost ns sq = sum_list (map (\<lambda>(x, i). node_height (ns ! i) + 30) sq)"

definition place_all :: "'n GraphNode list \<times> nat \<Rightarrow> (nat \<times> nat) list \<Rightarrow> 'n GraphNode list \<times> nat" where
  "place_all acc sq = foldl (\<lambda>acc (x, i). place x acc i) acc sq"

definition placing :: "'n GraphNode list \<Rightarrow> (nat \<times> nat) list" where
  "placing ns = concat (map (\<lambda>(l, g). map (Pair (l * 300 + 50)) g) (levelGroups ns))"

definition level_members :: "'n GraphNode list \<Rightarrow> nat \<Rightarrow> nat \<Rightarrow> nat list" where
  "level_members ns k l = filter (\<lambda>i. node_level (ns ! i) = l) [0..<k]"

definition groups_upto :: "'n GraphNode list \<Rightarrow> nat \<Rightarrow> (nat \<times> nat list) list" where
  "groups_upto ns k = foldl (\<lambda>gs i. group_push (node_level (ns ! i)) i gs) [] [0..<k]"

text \<open>The fresh closure and the traversal of a parsed document.\<close>

definition init :: "'n closure" where
  "init = \<lparr>nodes = [], edges = [], nodeId = 0\<rparr>"

definition build :: "nat \<Rightarrow> js_string set \<Rightarrow> 'n json \<Rightarrow> 'n closure" where
  "build d E D = snd (traverse d E D (ascii ''root'') None 0 init)"

definition returns :: "nat \<Rightarrow> js_string set \<Rightarrow> 'n json \<Rightarrow> bool" where
  "returns d E D \<longleftrightarrow> fst (traverse d E D (ascii ''root'') None 0 (init :: 'n closure)) = Normal"

text \<open>
  One iteration of the \<^verbatim>\<open>forEach\<close> of \<^verbatim>\<open>traverse\<close> on the child \<open>(ck, cv)\<close> of the
  node \<open>cid\<close>, with the completion of the iterations before it.
\<close>

definition visit ::
  "nat \<Rightarrow> js_string set \<Rightarrow> js_string \<Rightarrow> nat \<Rightarrow> completion \<times> 'n closure \<Rightarrow> js_string \<times> 'n json \<Rightarrow>
   completion \<times> 'n closure" where
  "visit d E cid l = (\<lambda>(c, s) (ck, cv).
     case c of
       Normal \<Rightarrow> if d = 0 then (RangeError, s) else traverse (d - 1) E cv ck (Some cid) l s
     | RangeError \<Rightarrow> (RangeError, s))"

text \<open>
  \<open>edge_for\<close> is the edge that \<open>emit\<close> pushes with a node; a node is \<open>rooted\<close> when
  it has a parent or is \<open>node-0\<close>.
\<close>

definition edge_for :: "'n GraphNode \<Rightarrow> GraphEdge list" where
  "edge_for n = (if truthy_opt (node_parent n) then [new_edge (the (node_parent n)) (node_id n)] else [])"

definition rooted :: "'n GraphNode \<Rightarrow> bool" where
  "rooted n \<longleftrightarrow> truthy_opt (node_parent n) \<or> node_id n = node_name 0"

text \<open>The number of entries of an object or of elements of an array.\<close>

definition childCount :: "'n json \<Rightarrow> nat" where
  "childCount v = (case v of JObject es \<Rightarrow> length es | JArray xs \<Rightarrow> length xs | _ \<Rightarrow> 0)"

text \<open>
  The interval of the zoom factor, and the event sequences whose touch distances do not
  overflow.
\<close>

definition inRange :: "jsnum \<Rightarrow> bool" where
  "inRange z = (case z of Fin r \<Rightarrow> 1 / 10 \<le> r \<and> r \<le> 3 | _ \<Rightarrow> False)"

definition finite_distance :: "gesture \<Rightarrow> bool" where
  "finite_distance g =
     (case g of TouchStart ts \<Rightarrow> getTouchDistance ts \<noteq> Some PInf
              | TouchMove ts \<Rightarrow> getTouchDistance ts \<noteq> Some PInf
              | _ \<Rightarrow> True)"

definition steady :: "viewport \<Rightarrow> bool" where
  "steady vp \<longleftrightarrow>
     inRange (zoom vp) \<and> lastTouchDistance vp \<noteq> Some PInf \<and> lastTouchDistance vp \<noteq> Some NInf"

text \<open>
  Child lists and parent references: \<open>kids ns i\<close> are the ids of the nodes of \<open>ns\<close>
  whose parent is \<open>i\<close>. A state is \<open>linked\<close> when every child list is the list of
  kids and every parent is a node of the state; it is \<open>justified\<close> when every parent is
  an expanded node with children; \<open>served E X\<close> says that every expanded node with
  children outside \<open>X\<close> is the parent of some node.
\<close>

definition kids :: "'n GraphNode list \<Rightarrow> js_string \<Rightarrow> js_string list" where
  "kids ns i = map node_id (filter (\<lambda>m. node_parent m = Some i) ns)"

definition linked :: "'n closure \<Rightarrow> bool" where
  "linked st \<longleftrightarrow>
     ids_ok st \<and>
     (\<forall>n\<in>set (nodes st). node_children n = kids (nodes st) (node_id n)) \<and>
     (\<forall>m\<in>set (nodes st). \<forall>q. node_parent m = Some q \<longrightarrow> truthy q \<longrightarrow>
         q \<in> node_id ` set (nodes st))"

definition known :: "js_string option \<Rightarrow> 'n closure \<Rightarrow> bool" where
  "known p st \<longleftrightarrow> (\<forall>q. p = Some q \<longrightarrow> truthy q \<longrightarrow> q \<in> node_id ` set (nodes st))"

definition pointed :: "'n GraphNode list \<Rightarrow> js_string \<Rightarrow> bool" where
  "pointed ns i \<longleftrightarrow> (\<exists>m\<in>set ns. node_parent m = Some i)"

definition opened :: "js_string set \<Rightarrow> 'n GraphNode list \<Rightarrow> js_string \<Rightarrow> bool" where
  "opened E ns i \<longleftrightarrow> (\<exists>n\<in>set ns. node_id n = i \<and> hasChildren (node_value n) \<and> i \<in> E)"

definition justified :: "js_string set \<Rightarrow> 'n closure \<Rightarrow> bool" where
  "justified E st \<longleftrightarrow>
     (\<forall>m\<in>set (nodes st). \<forall>q. node_parent m = Some q \<longrightarrow> truthy q \<longrightarrow> opened E (nodes st) q)"

definition served :: "js_string set \<Rightarrow> js_string set \<Rightarrow> 'n closure \<Rightarrow> bool" where
  "served E X st \<longleftrightarrow>
     (\<forall>n\<in>set (nodes st). node_id n \<notin> X \<longrightarrow> hasChildren (node_value n) \<longrightarrow> node_id n \<in> E \<longrightarrow>
        pointed (nodes st) (node_id n))"

text \<open>Two traversals that differ in the membership of one id \<open>L\<close>.\<close>

definition setExp :: "js_string \<Rightarrow> bool \<Rightarrow> 'n GraphNode \<Rightarrow> 'n GraphNode" where
  "setExp L b n = (if node_id n = L then n\<lparr>node_isExpanded := b\<rparr> else n)"

definition rel :: "js_string \<Rightarrow> 'n closure \<Rightarrow> 'n closure \<Rightarrow> bool" where
  "rel L s1 s2 \<longleftrightarrow>
     nodeId s1 = nodeId s2 \<and> edges s1 = edges s2 \<and> nodes s1 = map (setExp L True) (nodes s2)"

definition leafy :: "js_string \<Rightarrow> 'n GraphNode list \<Rightarrow> bool" where
  "leafy L ns \<longleftrightarrow> (\<forall>n\<in>set ns. node_id n = L \<longrightarrow> \<not> hasChildren (node_value n))"

text \<open>
  The depth-first pre-order listing of the visible tree, as the specification describes
  the traversal: a node, then the listings of its children in source order when the node
  has children and is expanded, each numbered from where the previous one stopped. It is
  compared with what \<^verbatim>\<open>traverse\<close> pushes. \<open>bare\<close> forgets position and child list.
  The recursion ends because a child is smaller than its container.
\<close>

lemma Object_entries_size:
  "(a, b) \<in> set (Object_entries v) \<Longrightarrow> size b < size v"
proof (cases v)
  case (JObject es)
  assume "(a, b) \<in> set (Object_entries v)"
  with JObject have "(a, b) \<in> set es" by simp
  then have "size_prod (\<lambda>_. 0) size (a, b) \<le> size_list (size_prod (\<lambda>_. 0) size) es"
    by (simp add: size_list_estimation')
  with JObject show ?thesis by simp
qed simp_all

lemma items_size:
  "(i, b) \<in> set (enumerate n (items v)) \<Longrightarrow> size b < size v"
proof (cases v)
  case (JArray xs)
  assume "(i, b) \<in> set (enumerate n (items v))"
  with JArray have "b \<in> set xs" by (auto simp: in_set_enumerate_eq)
  then have "size b \<le> size_list size xs"
    by (simp add: size_list_estimation')
  with JArray show ?thesis by simp
qed simp_all

lemma children_of_size: "(ck, cv) \<in> set (children_of v) \<Longrightarrow> size cv < size v"
  by (auto simp: children_of_def Object_entries_size items_size split: if_splits)

function preorder ::
  "js_string set \<Rightarrow> 'n json \<Rightarrow> js_string \<Rightarrow> js_string option \<Rightarrow> nat \<Rightarrow> nat \<Rightarrow> 'n GraphNode list" where
  "preorder E v k p l c =
     new_node E v k p l c #
     (if hasChildren v \<and> node_name c \<in> E
      then foldl (\<lambda>acc (ck, cv).
                    acc @ preorder E cv ck (Some (node_name c)) (l + 1) (c + 1 + length acc))
                 [] (children_of v)
      else [])"
  by pat_completeness auto
termination
  by (relation "measure (\<lambda>(E, v, k, p, l, c). size v)")
     (auto simp: children_of_size)

declare preorder.simps [simp del]

definition bare :: "'n GraphNode \<Rightarrow> 'n GraphNode" where
  "bare n = n\<lparr>node_x := 0, node_y := 0, node_children := []\<rparr>"

text \<open>
  How deep a value is nested: the length of the longest chain of non-empty containers in
  it, each an entry or element of the one before. \<open>nest n\<close> is the document
  \<^verbatim>\<open>[[...[null]...]]\<close> of depth \<open>n + 1\<close>.
\<close>

function depth :: "'n json \<Rightarrow> nat" where
  "depth v =
     (if hasChildren v then Suc (foldr max (map (\<lambda>(ck, cv). depth cv) (children_of v)) 0)
      else 0)"
  by pat_completeness auto
termination
  by (relation "measure size") (auto simp: children_of_size)

declare depth.simps [simp del]

fun nest :: "nat \<Rightarrow> 'n json" where
  "nest 0 = JArray [JNull]"
| "nest (Suc n) = JArray [nest n]"

text \<open>A stand-in for \<^verbatim>\<open>JSON.parse\<close> on four inputs, used for the concrete instances.\<close>

definition sample_parse :: "js_string \<Rightarrow> unit json option" where
  "sample_parse s =
     (if s = ascii ''[null]'' then Some (JArray [JNull])
      else if s = ascii ''[null,null]'' then Some (JArray [JNull, JNull])
      else if s = ascii ''{\"a\":[]}'' then Some (JObject [(ascii ''a'', JArray [])])
      else if s = ascii ''[[null]]'' then Some (JArray [JArray [JNull]])
      else None)"

section \<open>Lemmas\<close>

subsection \<open>The traversal, unfolded\<close>

text \<open>
  Both iterations of \<^verbatim>\<open>traverse\<close> visit \<open>children_of\<close>; induction on the value.
\<close>

lemma length_children_of: "length (children_of v) = length (preview_keys v)"
  by (cases v) (simp_all add: children_of_def preview_keys_def Object_keys_def)

lemma hasChildren_length: "hasChildren v \<longleftrightarrow> 0 < length (children_of v)"
  by (cases v) (simp_all add: children_of_def hasChildren_def Object_keys_def)

lemma hasChildren_children_of: "hasChildren v \<longleftrightarrow> children_of v \<noteq> []"
  by (simp add: hasChildren_length)

lemma traverse_unfold:
  "traverse d E v k p l st =
     (let st1 = emit E v k p l st
      in if hasChildren v \<and> node_name (nodeId st) \<in> E
         then foldl (visit d E (node_name (nodeId st)) (l + 1)) (Normal, st1) (children_of v)
         else (Normal, st1))"
proof -
  have obj: "forEach xs
      (\<lambda>(childKey, childValue) s.
         if d = 0 then (RangeError, s)
         else traverse (d - 1) E childValue childKey (Some cid) l' s) st1 =
      foldl (visit d E cid l') (Normal, st1) xs" for xs cid l' and st1 :: "'a closure"
    unfolding forEach_def visit_def
    by (rule arg_cong [where f = "\<lambda>f. foldl f (Normal, st1) xs"])
       (auto simp: fun_eq_iff split: completion.split)
  have arr: "forEach xs
      (\<lambda>(index, item) s.
         if d = 0 then (RangeError, s)
         else traverse (d - 1) E item (index_key index) (Some cid) l' s) st1 =
      foldl (visit d E cid l') (Normal, st1) (map (\<lambda>(i, x). (index_key i, x)) xs)"
    for xs cid l' and st1 :: "'a closure"
    unfolding forEach_def visit_def foldl_map
    by (rule arg_cong [where f = "\<lambda>f. foldl f (Normal, st1) xs"])
       (auto simp: fun_eq_iff split: completion.split)
  show ?thesis
    by (subst traverse.simps, simp only: obj arr)
       (auto simp add: children_of_def Let_def hasChildren_def)
qed

lemma traverse_induct [case_names step]:
  assumes "\<And>d v k p l st.
     (\<And>ck cv d' k' p' l' s. (ck, cv) \<in> set (children_of v) \<Longrightarrow> P d' cv k' p' l' s) \<Longrightarrow>
     P d v k p l st"
  shows "P d v k p l st"
proof (induction v arbitrary: d k p l st rule: measure_induct_rule [of size])
  case (less v)
  show ?case
    by (rule assms) (rule less, rule children_of_size)
qed

text \<open>
  An iteration either leaves the closure alone and ends in a \<^verbatim>\<open>RangeError\<close>, or it is
  the recursive call.
\<close>

lemma visit_cases [case_names skip call]:
  obtains (skip) "visit d E cid l r x = (RangeError, snd r)"
  | (call) ck cv where "x = (ck, cv)" and "fst r = Normal" and "d \<noteq> 0"
      and "visit d E cid l r x = traverse (d - 1) E cv ck (Some cid) l (snd r)"
proof -
  obtain c s where r: "r = (c, s)" by (cases r)
  obtain ck cv where x: "x = (ck, cv)" by (cases x)
  show ?thesis
  proof (cases "c = Normal \<and> d \<noteq> 0")
    case True
    then have "visit d E cid l r x = traverse (d - 1) E cv ck (Some cid) l (snd r)"
      by (simp add: visit_def r x)
    with True show ?thesis by (intro call [of ck cv]) (simp_all add: r x)
  next
    case False
    then have "visit d E cid l r x = (RangeError, snd r)"
      by (cases c) (auto simp: visit_def r x)
    then show ?thesis by (rule skip)
  qed
qed

lemma visit_thrown [simp]: "visit d E cid l (RangeError, s) x = (RangeError, s)"
  by (simp add: visit_def case_prod_unfold)

lemma visit_fold_thrown [simp]: "foldl (visit d E cid l) (RangeError, s) xs = (RangeError, s)"
  by (induction xs) simp_all

lemma visit_fold_Normal:
  "fst (foldl (visit d E cid l) r xs) = Normal \<Longrightarrow> fst r = Normal"
proof (cases r)
  case (Pair c s)
  assume "fst (foldl (visit d E cid l) r xs) = Normal"
  with Pair show ?thesis by (cases c) simp_all
qed

lemma foldl_prefix_induct:
  assumes base: "I [] s0"
    and step: "\<And>ys x zs s. xs = ys @ x # zs \<Longrightarrow> s = foldl f s0 ys \<Longrightarrow> I ys s \<Longrightarrow> I (ys @ [x]) (f s x)"
  shows "I xs (foldl f s0 xs)"
proof -
  have "xs = ys @ zs \<Longrightarrow> I ys (foldl f s0 ys)" for ys zs
  proof (induction ys arbitrary: zs rule: rev_induct)
    case Nil
    show ?case using base by simp
  next
    case (snoc x ys)
    from snoc.prems have eq: "xs = ys @ x # zs" by simp
    then have "I ys (foldl f s0 ys)" by (rule snoc.IH)
    with eq have "I (ys @ [x]) (f (foldl f s0 ys) x)" by (intro step) auto
    then show ?case by simp
  qed
  from this [of xs "[]"] show ?thesis by simp
qed

subsection \<open>Identifiers\<close>

lemma digit_inj: "a < 10 \<Longrightarrow> b < 10 \<Longrightarrow> digit a = digit b \<Longrightarrow> a = b"
proof -
  assume a: "a < 10" and b: "b < 10" and eq: "digit a = digit b"
  from eq have "(of_nat a :: 16 word) = of_nat b" by (simp add: digit_def)
  then have "unat (of_nat a :: 16 word) = unat (of_nat b :: 16 word)" by simp
  with a b show "a = b" by (simp add: unat_of_nat)
qed

lemma decimal_nonempty: "decimal n \<noteq> []"
  by (subst decimal.simps) simp

lemma decimal_inj: "decimal a = decimal b \<Longrightarrow> a = b"
proof (induction a arbitrary: b rule: decimal.induct)
  case (1 a)
  show ?case
  proof (cases "a < 10")
    case True
    then have da: "decimal a = [digit a]" by (subst decimal.simps) simp
    show ?thesis
    proof (cases "b < 10")
      case bs: True
      then have "decimal b = [digit b]" by (subst decimal.simps) simp
      with da "1.prems" True bs show ?thesis by (auto dest: digit_inj)
    next
      case False
      then have "decimal b = decimal (b div 10) @ [digit (b mod 10)]"
        by (subst decimal.simps) simp
      with da "1.prems" have "decimal (b div 10) = []" by simp
      with decimal_nonempty show ?thesis by blast
    qed
  next
    case False
    then have da: "decimal a = decimal (a div 10) @ [digit (a mod 10)]"
      by (subst decimal.simps) simp
    show ?thesis
    proof (cases "b < 10")
      case True
      then have "decimal b = [digit b]" by (subst decimal.simps) simp
      with da "1.prems" have "decimal (a div 10) = []" by simp
      with decimal_nonempty show ?thesis by blast
    next
      case bl: False
      then have "decimal b = decimal (b div 10) @ [digit (b mod 10)]"
        by (subst decimal.simps) simp
      with da "1.prems" have e1: "decimal (a div 10) = decimal (b div 10)"
        and e2: "digit (a mod 10) = digit (b mod 10)" by simp_all
      from "1.IH" [OF False e1] have "a div 10 = b div 10" .
      moreover from e2 have "a mod 10 = b mod 10" by (auto dest!: digit_inj [rotated 2])
      ultimately show ?thesis by (metis div_mult_mod_eq)
    qed
  qed
qed

lemma node_name_inj [simp]: "node_name a = node_name b \<longleftrightarrow> a = b"
  by (auto simp: node_name_def dest: decimal_inj)

lemma node_name_truthy [simp]: "truthy (node_name a)"
  by (simp add: node_name_def truthy_def decimal_nonempty)

lemma node_name_0: "node_name 0 = ascii ''node-0''"
  by (simp add: node_name_def ascii_def decimal.simps digit_def)

subsection \<open>One step of the traversal\<close>

lemma emit_nodeId [simp]: "nodeId (emit E v k p l st) = nodeId st + 1"
  by (simp add: emit_def Let_def split: option.split)

lemma emit_nodes:
  "nodes (emit E v k p l st) =
     (if truthy_opt p then push_child (the p) (node_name (nodeId st)) (nodes st @ [new_node E v k p l (nodeId st)])
      else nodes st @ [new_node E v k p l (nodeId st)])"
  by (simp add: emit_def Let_def new_node_def split: option.split)

lemma emit_edges:
  "edges (emit E v k p l st) =
     (if truthy_opt p then edges st @ [new_edge (the p) (node_name (nodeId st))] else edges st)"
  by (simp add: emit_def Let_def new_edge_def split: option.split)

lemma push_child_length [simp]: "length (push_child p c ns) = length ns"
  by (induction ns) simp_all

lemma push_child_map:
  "(\<And>n cs. f (n\<lparr>node_children := cs\<rparr>) = f n) \<Longrightarrow> map f (push_child p c ns) = map f ns"
  by (induction ns) simp_all

lemma push_child_distinct:
  "distinct (map node_id ns) \<Longrightarrow>
   push_child p c ns =
     map (\<lambda>n. if node_id n = p then n\<lparr>node_children := node_children n @ [c]\<rparr> else n) ns"
proof (induction ns)
  case Nil
  show ?case by simp
next
  case (Cons n ns)
  show ?case
  proof (cases "node_id n = p")
    case True
    with Cons.prems have "\<forall>m\<in>set ns. node_id m \<noteq> p" by (auto simp: image_iff)
    then have "map (\<lambda>n. if node_id n = p then n\<lparr>node_children := node_children n @ [c]\<rparr> else n) ns = ns"
      by (simp add: map_idI)
    with True show ?thesis by simp
  next
    case False
    with Cons show ?thesis by simp
  qed
qed

lemma emit_length [simp]: "length (nodes (emit E v k p l st)) = length (nodes st) + 1"
  by (simp add: emit_nodes)

lemma emit_map:
  assumes "\<And>n cs. f (n\<lparr>node_children := cs\<rparr>) = f n"
  shows "map f (nodes (emit E v k p l st)) = map f (nodes st) @ [f (new_node E v k p l (nodeId st))]"
  by (simp add: emit_nodes push_child_map [of f, OF assms])

lemma traverse_leaf:
  "\<not> (hasChildren v \<and> node_name (nodeId st) \<in> E) \<Longrightarrow>
   traverse d E v k p l st = (Normal, emit E v k p l st)"
  using traverse_unfold [of d E v k p l st] by (auto simp: Let_def)

lemma traverse_node:
  "hasChildren v \<Longrightarrow> node_name (nodeId st) \<in> E \<Longrightarrow>
   traverse d E v k p l st =
     foldl (visit d E (node_name (nodeId st)) (l + 1)) (Normal, emit E v k p l st) (children_of v)"
  using traverse_unfold [of d E v k p l st] by (auto simp: Let_def)

subsection \<open>Invariants of the traversal\<close>

text \<open>
  An invariant of \<open>emit\<close> holds of the closure that \<^verbatim>\<open>traverse\<close> leaves behind,
  whether it returns or throws; a guard on the parent may be carried along.
\<close>

lemma foldl_invariant:
  "I s \<Longrightarrow> (\<And>x s. x \<in> set xs \<Longrightarrow> I s \<Longrightarrow> I (f s x)) \<Longrightarrow> I (foldl f s xs)"
  by (induction xs arbitrary: s) simp_all

lemma traverse_invariant:
  fixes st :: "'n closure"
  assumes A1: "\<And>v k p l st. Inv st \<Longrightarrow> G p st \<Longrightarrow> Inv (emit E v k p l st)"
    and A2: "\<And>v k p l st c. Inv st \<Longrightarrow> G p st \<Longrightarrow> G (Some (node_name c)) st \<Longrightarrow>
               G (Some (node_name c)) (emit E v k p l st)"
    and A3: "\<And>v k p l st. Inv st \<Longrightarrow> G p st \<Longrightarrow> hasChildren v \<Longrightarrow> node_name (nodeId st) \<in> E \<Longrightarrow>
               G (Some (node_name (nodeId st))) (emit E v k p l st)"
  shows "Inv st \<Longrightarrow> G p st \<Longrightarrow>
         Inv (snd (traverse d E v k p l st)) \<and>
         (\<forall>c. G (Some (node_name c)) st \<longrightarrow> G (Some (node_name c)) (snd (traverse d E v k p l st)))"
proof (induction d v k p l st rule: traverse_induct)
  case (step d v k p l st)
  let ?cid = "node_name (nodeId st)"
  let ?st1 = "emit E v k p l st"
  let ?f = "visit d E ?cid (l + 1)"
  have inv1: "Inv ?st1" using step.prems by (rule A1)
  have g1: "G (Some (node_name c)) st \<Longrightarrow> G (Some (node_name c)) ?st1" for c
    using step.prems by (rule A2)
  show ?case
  proof (cases "hasChildren v \<and> ?cid \<in> E")
    case False
    then have "traverse d E v k p l st = (Normal, ?st1)"
      by (rule traverse_leaf)
    with inv1 g1 show ?thesis by simp
  next
    case True
    then have eq: "traverse d E v k p l st = foldl ?f (Normal, ?st1) (children_of v)"
      by (simp add: traverse_node)
    have gc: "G (Some ?cid) ?st1" using step.prems True by (intro A3) auto
    define I where "I r \<longleftrightarrow> Inv (snd r) \<and> G (Some ?cid) (snd r) \<and>
        (\<forall>c. G (Some (node_name c)) st \<longrightarrow> G (Some (node_name c)) (snd r))"
      for r :: "completion \<times> 'n closure"
    have "I (foldl ?f (Normal, ?st1) (children_of v))"
    proof (rule foldl_invariant)
      show "I (Normal, ?st1)" using inv1 gc g1 by (simp add: I_def)
    next
      fix x r
      assume x: "x \<in> set (children_of v)" and Ir: "I r"
      show "I (?f r x)"
      proof (cases rule: visit_cases [where d = d and E = E and cid = ?cid and l = "l + 1" and r = r and x = x])
        case skip
        with Ir show ?thesis by (simp add: I_def)
      next
        case (call ck cv)
        from Ir have a: "Inv (snd r)" and b: "G (Some ?cid) (snd r)" by (simp_all add: I_def)
        from step.IH [of ck cv "snd r" "Some ?cid" "d - 1" ck "l + 1"] x call(1) a b
        have r: "Inv (snd (traverse (d - 1) E cv ck (Some ?cid) (l + 1) (snd r)))"
          and r2: "\<And>c. G (Some (node_name c)) (snd r) \<Longrightarrow>
                    G (Some (node_name c)) (snd (traverse (d - 1) E cv ck (Some ?cid) (l + 1) (snd r)))"
          by auto
        from r r2 Ir show ?thesis unfolding call(4) by (simp add: I_def)
      qed
    qed
    with eq show ?thesis by (simp add: I_def)
  qed
qed

lemma core_fields [simp]:
  "node_id (core n) = node_id n" "node_key (core n) = node_key n"
  "node_value (core n) = node_value n" "node_type (core n) = node_type n"
  "node_x (core n) = node_x n" "node_y (core n) = node_y n"
  "node_width (core n) = node_width n" "node_height (core n) = node_height n"
  "node_parent (core n) = node_parent n" "node_level (core n) = node_level n"
  "node_isExpanded (core n) = node_isExpanded n" "node_children (core n) = []"
  by (simp_all add: core_def)

lemma core_update [simp]: "core (n\<lparr>node_children := cs\<rparr>) = core n"
  by (simp add: core_def)

lemma new_node_fields [simp]:
  "node_id (new_node E v k p l c) = node_name c" "node_key (new_node E v k p l c) = k"
  "node_value (new_node E v k p l c) = v" "node_type (new_node E v k p l c) = typeOf v"
  "node_x (new_node E v k p l c) = 0" "node_y (new_node E v k p l c) = 0"
  "node_width (new_node E v k p l c) = 220"
  "node_height (new_node E v k p l c) = 100 + extraHeight E (node_name c) v"
  "node_parent (new_node E v k p l c) = p" "node_level (new_node E v k p l c) = l"
  "node_isExpanded (new_node E v k p l c) = (node_name c \<in> E)"
  "node_children (new_node E v k p l c) = []"
  by (simp_all add: new_node_def)

lemma emit_core:
  "map core (nodes (emit E v k p l st)) = map core (nodes st) @ [core (new_node E v k p l (nodeId st))]"
  by (rule emit_map) simp

lemma emit_ids:
  "map node_id (nodes (emit E v k p l st)) = map node_id (nodes st) @ [node_name (nodeId st)]"
  using emit_map [of node_id E v k p l st] by simp

lemma traverse_children_invariant:
  fixes r :: "completion \<times> 'n closure"
  assumes A1: "\<And>v k p l st. Inv st \<Longrightarrow> G p st \<Longrightarrow> Inv (emit E v k p l st)"
    and A2: "\<And>v k p l st c. Inv st \<Longrightarrow> G p st \<Longrightarrow> G (Some (node_name c)) st \<Longrightarrow>
               G (Some (node_name c)) (emit E v k p l st)"
    and A3: "\<And>v k p l st. Inv st \<Longrightarrow> G p st \<Longrightarrow> hasChildren v \<Longrightarrow> node_name (nodeId st) \<in> E \<Longrightarrow>
               G (Some (node_name (nodeId st))) (emit E v k p l st)"
    and inv: "Inv (snd r)" and g: "G (Some (node_name c)) (snd r)"
  shows "Inv (snd (foldl (visit d E (node_name c) l) r cs))"
proof -
  let ?f = "visit d E (node_name c) l"
  have "Inv (snd (foldl ?f r cs)) \<and> G (Some (node_name c)) (snd (foldl ?f r cs))"
  proof (rule foldl_invariant [where I = "\<lambda>r. Inv (snd r) \<and> G (Some (node_name c)) (snd r)"])
    show "Inv (snd r) \<and> G (Some (node_name c)) (snd r)" using inv g by simp
  next
    fix x and r' :: "completion \<times> 'n closure"
    assume "x \<in> set cs" and Is: "Inv (snd r') \<and> G (Some (node_name c)) (snd r')"
    show "Inv (snd (?f r' x)) \<and> G (Some (node_name c)) (snd (?f r' x))"
    proof (cases rule: visit_cases [where d = d and E = E and cid = "node_name c" and l = l and r = r' and x = x])
      case skip
      with Is show ?thesis by simp
    next
      case (call ck cv)
      from traverse_invariant [of Inv G E "snd r'" "Some (node_name c)" "d - 1" cv ck l, OF A1 A2 A3] Is
      show ?thesis by (simp add: call(4))
    qed
  qed
  then show ?thesis by simp
qed

lemma traverse_inv:
  assumes "\<And>v k p l st. Inv st \<Longrightarrow> Inv (emit E v k p l st)" and "Inv st"
  shows "Inv (snd (traverse d E v k p l st))"
  using traverse_invariant [of Inv "\<lambda>_ _. True" E st p d v k l] assms by simp

lemma traverse_children_inv:
  assumes "\<And>v k p l st. Inv st \<Longrightarrow> Inv (emit E v k p l st)" and "Inv (snd r)"
  shows "Inv (snd (foldl (visit d E (node_name c) l) r cs))"
  using traverse_children_invariant [of Inv "\<lambda>_ _. True" E r c d l cs] assms by simp

lemma emit_ids_ok: "ids_ok st \<Longrightarrow> ids_ok (emit E v k p l st)"
  by (simp add: ids_ok_def emit_ids)

lemma traverse_ids_ok: "ids_ok st \<Longrightarrow> ids_ok (snd (traverse d E v k p l st))"
  by (rule traverse_inv [where Inv = ids_ok]) (rule emit_ids_ok)

lemma ids_ok_length: "ids_ok st \<Longrightarrow> length (nodes st) = nodeId st"
proof -
  assume "ids_ok st"
  then have "length (map node_id (nodes st)) = length (map node_name [0..<nodeId st])"
    by (simp only: ids_ok_def)
  then show ?thesis by simp
qed

lemma ids_ok_distinct: "ids_ok st \<Longrightarrow> distinct (map node_id (nodes st))"
proof -
  assume "ids_ok st"
  then have "map node_id (nodes st) = map node_name [0..<nodeId st]"
    by (simp only: ids_ok_def)
  then show ?thesis by (simp add: distinct_map inj_on_def)
qed

lemma traverse_prefix:
  fixes st :: "'n closure"
  shows "prefix (map core (nodes st)) (map core (nodes (snd (traverse d E v k p l st))))"
proof (rule traverse_inv [where Inv = "\<lambda>s::'n closure. prefix (map core (nodes st)) (map core (nodes s))"])
  show "prefix (map core (nodes st)) (map core (nodes st))" by simp
next
  fix v k p l and s :: "'n closure"
  assume "prefix (map core (nodes st)) (map core (nodes s))"
  then show "prefix (map core (nodes st)) (map core (nodes (emit E v k p l s)))"
    by (simp add: emit_core)
qed

lemma traverse_first:
  fixes st :: "'n closure"
  shows "prefix (map core (nodes st) @ [core (new_node E v k p l (nodeId st))])
          (map core (nodes (snd (traverse d E v k p l st))))"
proof (cases "hasChildren v \<and> node_name (nodeId st) \<in> E")
  case False
  then show ?thesis by (simp add: traverse_leaf emit_core)
next
  case True
  let ?xs = "map core (nodes st) @ [core (new_node E v k p l (nodeId st))]"
  have "prefix ?xs (map core (nodes (snd (foldl (visit d E (node_name (nodeId st)) (l + 1))
           (Normal, emit E v k p l st) (children_of v)))))"
  proof (rule traverse_children_inv [where Inv = "\<lambda>s::'n closure. prefix ?xs (map core (nodes s))"])
    show "prefix ?xs (map core (nodes (snd (Normal, emit E v k p l st))))" by (simp add: emit_core)
  next
    fix v' k' p' l' and s :: "'n closure"
    assume "prefix ?xs (map core (nodes s))"
    then show "prefix ?xs (map core (nodes (emit E v' k' p' l' s)))"
      by (simp add: emit_core)
  qed
  with True show ?thesis by (simp add: traverse_node)
qed

lemma traverse_all:
  fixes st :: "'n closure"
  assumes new: "\<And>v k p l c. Q (core (new_node E v k p l c))"
    and old: "\<forall>n\<in>set (nodes st). Q (core n)"
  shows "\<forall>n\<in>set (nodes (snd (traverse d E v k p l st))). Q (core n)"
proof (rule traverse_inv [where Inv = "\<lambda>s::'n closure. \<forall>n\<in>set (nodes s). Q (core n)"])
  show "\<forall>n\<in>set (nodes st). Q (core n)" by (rule old)
next
  fix v k p l and s :: "'n closure"
  assume a: "\<forall>n\<in>set (nodes s). Q (core n)"
  have "\<forall>m\<in>set (map core (nodes (emit E v k p l s))). Q m"
    unfolding emit_core using a new by auto
  then show "\<forall>n\<in>set (nodes (emit E v k p l s)). Q (core n)" by simp
qed

subsection \<open>The layout pass\<close>

lemma cost_append [simp]: "cost ns (xs @ ys) = cost ns xs + cost ns ys"
  by (simp add: cost_def)

lemma cost_Nil [simp]: "cost ns [] = 0"
  by (simp add: cost_def)

lemma cost_single [simp]: "cost ns [(x, i)] = node_height (ns ! i) + 30"
  by (simp add: cost_def)

lemma place_all_snoc:
  "place_all acc (sq @ [(x, i)]) = place x (place_all acc sq) i"
  by (simp add: place_all_def)

lemma place_all_spec:
  fixes ns :: "'n GraphNode list"
  assumes "distinct (map snd sq)" and "\<forall>i\<in>snd ` set sq. i < length ns"
  shows "length (fst (place_all (ns, y0) sq)) = length ns \<and>
         snd (place_all (ns, y0) sq) = y0 + cost ns sq \<and>
         (\<forall>k<length sq. fst (place_all (ns, y0) sq) ! snd (sq ! k) =
              (ns ! snd (sq ! k))\<lparr>node_x := fst (sq ! k), node_y := y0 + cost ns (take k sq)\<rparr>) \<and>
         (\<forall>i<length ns. i \<notin> snd ` set sq \<longrightarrow> fst (place_all (ns, y0) sq) ! i = ns ! i)"
  using assms
proof (induction sq rule: rev_induct)
  case Nil
  show ?case by (simp add: place_all_def)
next
  case (snoc a sq)
  obtain x i where a: "a = (x, i)" by (cases a)
  obtain ps y where acc: "place_all (ns, y0) sq = (ps, y)" by (cases "place_all (ns, y0) sq")
  from snoc.prems a have d: "distinct (map snd sq)" and inew: "i \<notin> snd ` set sq"
    and il: "i < length ns" and bound: "\<forall>i\<in>snd ` set sq. i < length ns"
    by auto
  from snoc.IH [OF d bound] acc
  have len: "length ps = length ns" and y: "y = y0 + cost ns sq"
    and placed: "\<And>k. k < length sq \<Longrightarrow>
        ps ! snd (sq ! k) = (ns ! snd (sq ! k))\<lparr>node_x := fst (sq ! k), node_y := y0 + cost ns (take k sq)\<rparr>"
    and rest: "\<And>j. j < length ns \<Longrightarrow> j \<notin> snd ` set sq \<Longrightarrow> ps ! j = ns ! j"
    by simp_all
  from rest [OF il inew] have psi: "ps ! i = ns ! i" .
  have res: "place_all (ns, y0) (sq @ [(x, i)]) =
      (ps[i := (ns ! i)\<lparr>node_x := x, node_y := y\<rparr>], y + node_height (ns ! i) + 30)"
    by (simp add: place_all_snoc acc place_def psi)
  have c1: "length (fst (place_all (ns, y0) (sq @ [a]))) = length ns"
    by (simp add: a res len)
  have c2: "snd (place_all (ns, y0) (sq @ [a])) = y0 + cost ns (sq @ [a])"
    by (simp add: a res y)
  have c3: "fst (place_all (ns, y0) (sq @ [a])) ! snd ((sq @ [a]) ! k) =
      (ns ! snd ((sq @ [a]) ! k))\<lparr>node_x := fst ((sq @ [a]) ! k),
         node_y := y0 + cost ns (take k (sq @ [a]))\<rparr>" if k: "k < length (sq @ [a])" for k
  proof (cases "k < length sq")
    case True
    then have "snd (sq ! k) \<in> snd ` set sq" by simp
    with inew have "snd (sq ! k) \<noteq> i" by auto
    with True show ?thesis by (simp add: a res nth_append placed)
  next
    case False
    with k have "k = length sq" by simp
    then show ?thesis by (simp add: a res len il y)
  qed
  have c4: "fst (place_all (ns, y0) (sq @ [a])) ! j = ns ! j"
    if "j < length ns" and "j \<notin> snd ` set (sq @ [a])" for j
  proof -
    from that a have "j \<noteq> i" and "j \<notin> snd ` set sq" by auto
    with that show ?thesis by (simp add: a res rest)
  qed
  from c1 c2 c3 c4 show ?case by blast
qed

lemma group_push_keys:
  "set (map fst (group_push l i gs)) = insert l (set (map fst gs))"
proof (induction l i gs rule: group_push.induct)
  case (1 l i)
  show ?case by simp
next
  case (2 l i l' g gs)
  show ?case
  proof (cases "l = l'")
    case True
    then show ?thesis by auto
  next
    case False
    show ?thesis
    proof (cases "l < l'")
      case True
      with False show ?thesis by auto
    next
      case ge: False
      with False 2 show ?thesis by auto
    qed
  qed
qed

lemma group_push_sorted:
  "sorted_wrt (<) (map fst gs) \<Longrightarrow> sorted_wrt (<) (map fst (group_push l i gs))"
proof (induction gs)
  case Nil
  show ?case by simp
next
  case (Cons a gs)
  obtain l' g where a: "a = (l', g)" by (cases a)
  from Cons.prems a have tl: "sorted_wrt (<) (map fst gs)" and hd: "\<forall>k\<in>set (map fst gs). l' < k"
    by simp_all
  show ?case
  proof (cases "l = l'")
    case True
    with Cons.prems a show ?thesis by simp
  next
    case False
    show ?thesis
    proof (cases "l < l'")
      case True
      with Cons.prems a False show ?thesis by auto
    next
      case ge: False
      with False have "l' < l" by simp
      with hd have "\<forall>k\<in>set (map fst (group_push l i gs)). l' < k"
        unfolding group_push_keys by simp
      with Cons.IH [OF tl] a False ge show ?thesis by simp
    qed
  qed
qed

lemma group_push_map_of:
  "sorted_wrt (<) (map fst gs) \<Longrightarrow>
   map_of (group_push l i gs) =
     (map_of gs)(l \<mapsto> (case map_of gs l of None \<Rightarrow> [i] | Some g \<Rightarrow> g @ [i]))"
proof (induction gs)
  case Nil
  show ?case by simp
next
  case (Cons a gs)
  obtain l' g where a: "a = (l', g)" by (cases a)
  from Cons.prems a have tl: "sorted_wrt (<) (map fst gs)" and hd: "\<forall>k\<in>set (map fst gs). l' < k"
    by simp_all
  show ?case
  proof (cases "l = l'")
    case True
    with a show ?thesis by auto
  next
    case False
    show ?thesis
    proof (cases "l < l'")
      case True
      with hd have "l \<notin> fst ` set gs" by auto
      then have "map_of gs l = None" by (simp add: map_of_eq_None_iff)
      with a False True show ?thesis by auto
    next
      case ge: False
      with Cons.IH [OF tl] a False show ?thesis by auto
    qed
  qed
qed

lemma level_members_Suc:
  "level_members ns (Suc k) l =
     level_members ns k l @ (if node_level (ns ! k) = l then [k] else [])"
  by (simp add: level_members_def)

lemma groups_upto_spec:
  "sorted_wrt (<) (map fst (groups_upto ns k)) \<and>
   (\<forall>l. map_of (groups_upto ns k) l =
      (if level_members ns k l = [] then None else Some (level_members ns k l)))"
proof (induction k)
  case 0
  show ?case by (simp add: groups_upto_def level_members_def)
next
  case (Suc k)
  have step: "groups_upto ns (Suc k) = group_push (node_level (ns ! k)) k (groups_upto ns k)"
    by (simp add: groups_upto_def)
  from Suc have s: "sorted_wrt (<) (map fst (groups_upto ns k))"
    and m: "\<And>l. map_of (groups_upto ns k) l =
      (if level_members ns k l = [] then None else Some (level_members ns k l))"
    by simp_all
  have "sorted_wrt (<) (map fst (groups_upto ns (Suc k)))"
    unfolding step using s by (rule group_push_sorted)
  moreover have "map_of (groups_upto ns (Suc k)) l =
      (if level_members ns (Suc k) l = [] then None else Some (level_members ns (Suc k) l))" for l
    unfolding step group_push_map_of [OF s] level_members_Suc
    by (simp add: m)
  ultimately show ?case by blast
qed

lemma levelGroups_upto: "levelGroups ns = groups_upto ns (length ns)"
  by (simp add: levelGroups_def groups_upto_def)

lemma levelGroups_distinct: "distinct (map fst (levelGroups ns))"
  using groups_upto_spec [of ns "length ns"]
  by (simp add: levelGroups_upto strict_sorted_iff)

lemma levelGroups_iff:
  "(l, g) \<in> set (levelGroups ns) \<longleftrightarrow>
     g = level_members ns (length ns) l \<and> g \<noteq> []"
proof -
  have "(l, g) \<in> set (levelGroups ns) \<longleftrightarrow> map_of (levelGroups ns) l = Some g"
    using levelGroups_distinct [of ns] by simp
  also have "\<dots> \<longleftrightarrow> g = level_members ns (length ns) l \<and> g \<noteq> []"
    using groups_upto_spec [of ns "length ns"] by (auto simp: levelGroups_upto)
  finally show ?thesis .
qed

lemma concat_groups_distinct:
  "distinct (map fst gs) \<Longrightarrow> \<forall>(l, g)\<in>set gs. g = filter (\<lambda>i. f i = l) xs \<Longrightarrow> distinct xs \<Longrightarrow>
   distinct (concat (map snd gs))"
proof (induction gs)
  case Nil
  show ?case by simp
next
  case (Cons a gs)
  obtain l g where a: "a = (l, g)" by (cases a)
  from Cons.prems a have g: "g = filter (\<lambda>i. f i = l) xs"
    and rest: "\<forall>(l', g')\<in>set gs. g' = filter (\<lambda>i. f i = l') xs"
    and fresh: "l \<notin> fst ` set gs" and d: "distinct (map fst gs)"
    by auto
  have "set g \<inter> set (concat (map snd gs)) = {}"
  proof (rule ccontr)
    assume "set g \<inter> set (concat (map snd gs)) \<noteq> {}"
    then obtain i l' g' where "i \<in> set g" and "(l', g') \<in> set gs" and "i \<in> set g'"
      by auto
    with g rest have "f i = l" and "f i = l'" by auto
    with \<open>(l', g') \<in> set gs\<close> fresh show False by force
  qed
  moreover have "distinct g" using g Cons.prems(3) by simp
  moreover have "distinct (concat (map snd gs))"
    using d rest Cons.prems(3) by (rule Cons.IH)
  ultimately show ?case by (simp add: a)
qed

lemma placing_snd: "map snd (placing ns) = concat (map snd (levelGroups ns))"
proof -
  have "map snd (concat (map (\<lambda>(l, g). map (Pair (l * 300 + 50)) g) gs)) = concat (map snd gs)"
    for gs :: "(nat \<times> nat list) list"
    by (induction gs) (auto simp: comp_def)
  then show ?thesis by (simp add: placing_def)
qed

lemma placing_distinct: "distinct (map snd (placing ns))"
  unfolding placing_snd
proof (rule concat_groups_distinct [where f = "\<lambda>i. node_level (ns ! i)" and xs = "[0..<length ns]"])
  show "distinct (map fst (levelGroups ns))" by (rule levelGroups_distinct)
  show "\<forall>(l, g)\<in>set (levelGroups ns). g = filter (\<lambda>i. node_level (ns ! i) = l) [0..<length ns]"
    by (auto simp: levelGroups_iff level_members_def)
  show "distinct [0..<length ns]" by simp
qed

lemma placing_bound: "\<forall>i\<in>snd ` set (placing ns). i < length ns"
proof -
  have "set (map snd (placing ns)) \<subseteq> {..<length ns}"
    unfolding placing_snd by (auto simp: levelGroups_iff level_members_def)
  then show ?thesis by auto
qed

lemma positionNodes_placing: "positionNodes ns = fst (place_all (ns, 50) (placing ns))"
proof -
  have "foldl (\<lambda>acc (levelNum, levelNodes). foldl (place (levelNum * 300 + 50)) acc levelNodes) acc gs =
        place_all acc (concat (map (\<lambda>(l, g). map (Pair (l * 300 + 50)) g) gs))"
    for acc :: "'a GraphNode list \<times> nat" and gs
    by (induction gs arbitrary: acc) (auto simp: place_all_def foldl_map)
  then show ?thesis by (simp add: positionNodes_def placing_def)
qed

lemma placing_segment:
  assumes "(l, g) \<in> set (levelGroups ns)"
  shows "\<exists>pre post. placing ns = pre @ map (Pair (l * 300 + 50)) g @ post"
proof -
  from assms obtain gs1 gs2 where "levelGroups ns = gs1 @ (l, g) # gs2"
    by (auto dest: split_list)
  then show ?thesis by (simp add: placing_def) blast
qed

lemma positionNodes_length [simp]: "length (positionNodes ns) = length ns"
  using place_all_spec [OF placing_distinct placing_bound, of ns 50]
  by (simp add: positionNodes_placing)

lemma placing_covers:
  assumes "i < length ns"
  shows "\<exists>k<length (placing ns). placing ns ! k = (node_level (ns ! i) * 300 + 50, i)"
proof -
  let ?l = "node_level (ns ! i)"
  let ?g = "level_members ns (length ns) ?l"
  from assms have mem: "i \<in> set ?g" by (simp add: level_members_def)
  then have "(?l, ?g) \<in> set (levelGroups ns)" by (auto simp: levelGroups_iff)
  then obtain pre post where pl: "placing ns = pre @ map (Pair (?l * 300 + 50)) ?g @ post"
    using placing_segment by blast
  from mem have "(?l * 300 + 50, i) \<in> set (placing ns)" unfolding pl by auto
  then show ?thesis by (auto simp: in_set_conv_nth)
qed

lemma positionNodes_nth:
  assumes "i < length ns"
  shows "\<exists>y. positionNodes ns ! i = (ns ! i)\<lparr>node_x := node_level (ns ! i) * 300 + 50, node_y := y\<rparr>"
proof -
  from placing_covers [OF assms] obtain k where k: "k < length (placing ns)"
    and pk: "placing ns ! k = (node_level (ns ! i) * 300 + 50, i)" by blast
  from place_all_spec [OF placing_distinct placing_bound, of ns 50] k
  have "fst (place_all (ns, 50) (placing ns)) ! snd (placing ns ! k) =
      (ns ! snd (placing ns ! k))\<lparr>node_x := fst (placing ns ! k),
         node_y := 50 + cost ns (take k (placing ns))\<rparr>"
    by blast
  then show ?thesis by (auto simp: pk positionNodes_placing)
qed

lemma positionNodes_map:
  assumes "\<And>n x y. f (n\<lparr>node_x := x, node_y := y\<rparr>) = f n"
  shows "map f (positionNodes ns) = map f ns"
proof (rule nth_equalityI)
  show "length (map f (positionNodes ns)) = length (map f ns)" by simp
next
  fix i
  assume "i < length (map f (positionNodes ns))"
  then have i: "i < length ns" by simp
  from positionNodes_nth [OF i] obtain y where
    "positionNodes ns ! i = (ns ! i)\<lparr>node_x := node_level (ns ! i) * 300 + 50, node_y := y\<rparr>" by blast
  with i show "map f (positionNodes ns) ! i = map f ns ! i" by (simp add: assms)
qed

lemma positionNodes_advance:
  fixes ns :: "'n GraphNode list"
  assumes "Suc j < length (level_members ns (length ns) l)"
  shows "node_y (positionNodes ns ! (level_members ns (length ns) l ! Suc j)) =
         node_y (positionNodes ns ! (level_members ns (length ns) l ! j)) +
         node_height (ns ! (level_members ns (length ns) l ! j)) + 30"
proof -
  let ?g = "level_members ns (length ns) l"
  let ?x = "l * 300 + 50"
  from assms have "?g \<noteq> []" by auto
  then have "(l, ?g) \<in> set (levelGroups ns)" by (simp add: levelGroups_iff)
  then obtain pre post where pl: "placing ns = pre @ map (Pair ?x) ?g @ post"
    using placing_segment by blast
  let ?k = "length pre + j"
  from assms have k1: "?k < length (placing ns)" and k2: "Suc ?k < length (placing ns)"
    by (simp_all add: pl)
  from assms have at1: "placing ns ! ?k = (?x, ?g ! j)"
    by (simp add: pl nth_append)
  from assms have at2: "placing ns ! Suc ?k = (?x, ?g ! Suc j)"
    by (simp add: pl nth_append)
  note spec = place_all_spec [OF placing_distinct placing_bound, of ns 50]
  from spec k1 have y1: "node_y (positionNodes ns ! (?g ! j)) = 50 + cost ns (take ?k (placing ns))"
    using at1 by (auto simp: positionNodes_placing)
  from spec k2 have y2: "node_y (positionNodes ns ! (?g ! Suc j)) = 50 + cost ns (take (Suc ?k) (placing ns))"
    using at2 by (auto simp: positionNodes_placing)
  have "take (Suc ?k) (placing ns) = take ?k (placing ns) @ [(?x, ?g ! j)]"
    using k1 at1 by (simp add: take_Suc_conv_app_nth)
  with y1 y2 show ?thesis by simp
qed

lemma filter_nth_members:
  "filter P xs = map ((!) xs) (filter (\<lambda>i. P (xs ! i)) [0..<length xs])"
proof -
  have "filter P (map ((!) xs) [0..<length xs]) = map ((!) xs) (filter (\<lambda>i. P (xs ! i)) [0..<length xs])"
    by (simp add: filter_map comp_def)
  then show ?thesis by (simp add: map_nth)
qed

lemma positionNodes_field:
  assumes "\<And>n x y. f (n\<lparr>node_x := x, node_y := y\<rparr>) = f n" and "i < length ns"
  shows "f (positionNodes ns ! i) = f (ns ! i)"
proof -
  from positionNodes_nth [OF assms(2)] obtain y where
    "positionNodes ns ! i = (ns ! i)\<lparr>node_x := node_level (ns ! i) * 300 + 50, node_y := y\<rparr>" by blast
  then show ?thesis by (simp add: assms(1))
qed

lemma positionNodes_members:
  "filter (\<lambda>n. node_level n = l) (positionNodes ns) =
     map ((!) (positionNodes ns)) (level_members ns (length ns) l)"
proof -
  have "filter (\<lambda>i. node_level (positionNodes ns ! i) = l) [0..<length ns] =
        filter (\<lambda>i. node_level (ns ! i) = l) [0..<length ns]"
    by (rule filter_cong) (simp_all add: positionNodes_field [of node_level])
  then show ?thesis
    using filter_nth_members [of "\<lambda>n. node_level n = l" "positionNodes ns"]
    by (simp add: level_members_def)
qed

subsection \<open>The built graph\<close>

lemma createGraph_valid:
  "truthy (trim jsonInput) \<Longrightarrow> JSON_parse jsonInput = Some D \<Longrightarrow>
   createGraph d JSON_parse E jsonInput = (positionNodes (nodes (build d E D)), edges (build d E D))"
  by (simp add: createGraph_def build_def init_def Let_def)

lemma positionNodes_Nil [simp]: "positionNodes [] = []"
  by (simp add: positionNodes_def levelGroups_def)

lemma createGraph_invalid:
  "\<not> truthy (trim jsonInput) \<or> JSON_parse jsonInput = None \<Longrightarrow>
   createGraph d JSON_parse E jsonInput = ([], [])"
  by (auto simp: createGraph_def Let_def)

lemma createGraph_cases:
  obtains (empty) "createGraph d JSON_parse E jsonInput = ([], [])"
  | (valid) D where "truthy (trim jsonInput)" "JSON_parse jsonInput = Some D"
      "createGraph d JSON_parse E jsonInput = (positionNodes (nodes (build d E D)), edges (build d E D))"
proof (cases "truthy (trim jsonInput)")
  case False
  then show ?thesis using empty createGraph_invalid by blast
next
  case True
  show ?thesis
  proof (cases "JSON_parse jsonInput")
    case None
    then show ?thesis using empty createGraph_invalid by blast
  next
    case (Some D)
    with True show ?thesis using valid createGraph_valid by blast
  qed
qed

lemma init_ids_ok: "ids_ok init"
  by (simp add: ids_ok_def init_def)

lemma build_ids_ok: "ids_ok (build d E D)"
  unfolding build_def by (rule traverse_ids_ok) (rule init_ids_ok)

lemma build_first:
  "\<exists>rest. map core (nodes (build d E D)) = core (new_node E D (ascii ''root'') None 0 0) # rest"
  using traverse_first [of init E D "ascii ''root''" None 0 d]
  by (auto simp: build_def init_def prefix_def)

lemma build_nonempty: "nodes (build d E D) \<noteq> []"
  using build_first [of d E D] by auto

lemma build_ids: "map node_id (nodes (build d E D)) = map node_name [0..<length (nodes (build d E D))]"
  using build_ids_ok [of d E D] ids_ok_length [of "build d E D"] by (simp add: ids_ok_def)

lemma emit_edge_for:
  "edges st = concat (map edge_for (nodes st)) \<Longrightarrow>
   edges (emit E v k p l st) = concat (map edge_for (nodes (emit E v k p l st)))"
proof -
  assume a: "edges st = concat (map edge_for (nodes st))"
  have "map edge_for (nodes (emit E v k p l st)) =
        map edge_for (nodes st) @ [edge_for (new_node E v k p l (nodeId st))]"
    by (rule emit_map) (simp add: edge_for_def)
  then show ?thesis by (simp add: emit_edges a edge_for_def)
qed

lemma build_edges: "edges (build d E D) = concat (map edge_for (nodes (build d E D)))"
  unfolding build_def
  by (rule traverse_inv [where Inv = "\<lambda>s. edges s = concat (map edge_for (nodes s))"])
     (simp_all add: emit_edge_for init_def)

lemma emit_set_core:
  "core ` set (nodes (emit E v k p l st)) =
     insert (core (new_node E v k p l (nodeId st))) (core ` set (nodes st))"
proof -
  have "set (map core (nodes (emit E v k p l st))) =
        set (map core (nodes st) @ [core (new_node E v k p l (nodeId st))])"
    by (simp only: emit_core)
  then show ?thesis by simp
qed

lemma build_rooted: "\<forall>n\<in>set (nodes (build d E D)). rooted n"
proof -
  let ?Inv = "\<lambda>s::'a closure. \<forall>n\<in>set (nodes s). rooted (core n)"
  let ?G = "\<lambda>(p::js_string option) (s::'a closure). truthy_opt p \<or> nodeId s = 0"
  have "?Inv (snd (traverse d E D (ascii ''root'') None 0 init)) \<and>
        (\<forall>c. ?G (Some (node_name c)) init \<longrightarrow>
             ?G (Some (node_name c)) (snd (traverse d E D (ascii ''root'') None 0 init)))"
  proof (rule traverse_invariant [where Inv = ?Inv and G = ?G])
    fix v k p l and st :: "'a closure"
    assume inv: "?Inv st" and g: "?G p st"
    have "\<forall>m\<in>core ` set (nodes (emit E v k p l st)). rooted m"
      unfolding emit_set_core using inv g by (auto simp: rooted_def)
    then show "?Inv (emit E v k p l st)" by simp
  qed (simp_all add: init_def)
  then show ?thesis by (simp add: build_def rooted_def)
qed

lemma concat_map_single:
  "\<forall>x\<in>set xs. f x = [g x] \<Longrightarrow> concat (map f xs) = map g xs"
  by (induction xs) simp_all

lemma build_shape:
  obtains r rest where "nodes (build d E D) = r # rest"
    and "core r = core (new_node E D (ascii ''root'') None 0 0)"
    and "map node_id rest = map node_name [1..<Suc (length rest)]"
    and "edges (build d E D) = map (\<lambda>n. new_edge (the (node_parent n)) (node_id n)) rest"
    and "\<forall>n\<in>set rest. truthy_opt (node_parent n)"
proof -
  from build_first [of d E D] obtain cs where
    cs: "map core (nodes (build d E D)) = core (new_node E D (ascii ''root'') None 0 0) # cs" by auto
  then obtain r rest where nb: "nodes (build d E D) = r # rest"
    and r: "core r = core (new_node E D (ascii ''root'') None 0 0)"
    by (cases "nodes (build d E D)") auto
  from build_ids [of d E D] nb
  have "node_id r # map node_id rest = map node_name [0..<Suc (length rest)]" by simp
  moreover have "[0..<Suc (length rest)] = 0 # [1..<Suc (length rest)]"
    using upt_conv_Cons [of 0 "Suc (length rest)"] by simp
  ultimately have ids: "map node_id rest = map node_name [1..<Suc (length rest)]"
    by (simp del: upt_Suc)
  have tr: "\<forall>n\<in>set rest. truthy_opt (node_parent n)"
  proof
    fix n assume n: "n \<in> set rest"
    then have "node_id n \<in> set (map node_id rest)" by simp
    then obtain j where "j \<in> set [1..<Suc (length rest)]" and "node_id n = node_name j"
      unfolding ids by (auto simp del: upt_Suc)
    then have "node_id n \<noteq> node_name 0" by (auto simp del: upt_Suc)
    moreover from n nb build_rooted [of d E D] have "rooted n" by simp
    ultimately show "truthy_opt (node_parent n)" by (simp add: rooted_def)
  qed
  from r have "node_parent r = None"
    by (metis core_fields(9) new_node_fields(9))
  then have er: "edge_for r = []" by (simp add: edge_for_def)
  have "concat (map edge_for rest) = map (\<lambda>n. new_edge (the (node_parent n)) (node_id n)) rest"
    by (rule concat_map_single) (simp add: edge_for_def tr)
  with build_edges [of d E D] nb er
  have "edges (build d E D) = map (\<lambda>n. new_edge (the (node_parent n)) (node_id n)) rest" by simp
  with nb r ids tr show ?thesis by (intro that)
qed

lemma count_upt: "length (filter (\<lambda>j. j = i) [a..<b]) = (if a \<le> i \<and> i < b then 1 else 0)"
  by (induction b) auto

lemma preview_keys_count: "hasChildren v \<Longrightarrow> length (preview_keys v) = childCount v"
  by (cases v) (simp_all add: preview_keys_def childCount_def Object_keys_def hasChildren_def)

lemma positionNodes_mem:
  assumes "n \<in> set (positionNodes ns)"
  obtains m x y where "m \<in> set ns" and "n = m\<lparr>node_x := x, node_y := y\<rparr>"
proof -
  from assms obtain i where i: "i < length ns" and n: "n = positionNodes ns ! i"
    by (auto simp: in_set_conv_nth)
  from positionNodes_nth [OF i] obtain y where
    "positionNodes ns ! i = (ns ! i)\<lparr>node_x := node_level (ns ! i) * 300 + 50, node_y := y\<rparr>" by blast
  with i n show ?thesis by (intro that [of "ns ! i"]) simp_all
qed

lemma build_all:
  assumes "\<And>v k p l c. Q (core (new_node E v k p l c))"
  shows "\<forall>n\<in>set (nodes (build d E D)). Q (core n)"
  unfolding build_def by (rule traverse_all) (simp_all add: assms init_def)

lemma createGraph_all:
  assumes new: "\<And>v k p l c. Q (core (new_node E v k p l c))"
    and pos: "\<And>n x y. Q (core (n\<lparr>node_x := x, node_y := y\<rparr>)) = Q (core n)"
  shows "\<forall>n\<in>set (fst (createGraph d JSON_parse E jsonInput)). Q (core n)"
proof (cases d JSON_parse E jsonInput rule: createGraph_cases)
  case empty
  then show ?thesis by simp
next
  case (valid D)
  show ?thesis
  proof
    fix n assume "n \<in> set (fst (createGraph d JSON_parse E jsonInput))"
    with valid(3) have "n \<in> set (positionNodes (nodes (build d E D)))" by simp
    then obtain m x y where m: "m \<in> set (nodes (build d E D))" and n: "n = m\<lparr>node_x := x, node_y := y\<rparr>"
      by (rule positionNodes_mem)
    from build_all [of Q E d D, OF new] m have "Q (core m)" by blast
    with n pos show "Q (core n)" by simp
  qed
qed

lemma blank_iff: "\<not> truthy (trim s) \<longleftrightarrow> (\<forall>c\<in>set s. isWhiteSpace c)"
proof (cases "dropWhile isWhiteSpace s = []")
  case True
  then have "\<forall>c\<in>set s. isWhiteSpace c" by (simp add: dropWhile_eq_Nil_conv)
  moreover have "trim s = []" unfolding trim_def True by simp
  ultimately show ?thesis by (simp add: truthy_def)
next
  case False
  then have "\<not> isWhiteSpace (hd (dropWhile isWhiteSpace s))" by (rule hd_dropWhile)
  moreover from False have "hd (dropWhile isWhiteSpace s) \<in> set (dropWhile isWhiteSpace s)"
    by simp
  ultimately have "\<not> (\<forall>x\<in>set (dropWhile isWhiteSpace s). isWhiteSpace x)" by blast
  moreover from False have "\<not> (\<forall>c\<in>set s. isWhiteSpace c)"
    by (simp add: dropWhile_eq_Nil_conv)
  ultimately show ?thesis by (simp add: truthy_def trim_def dropWhile_eq_Nil_conv)
qed

subsection \<open>Zoom: the bound holds while no distance overflows\<close>

lemma clamp_inRange:
  "x \<noteq> NaN \<Longrightarrow> inRange (Math_max (Fin (1 / 10)) (Math_min (Fin 3) x))"
  by (cases x) (simp_all add: Math_max_def Math_min_def inRange_def)

lemma overflow_not_NaN [simp]: "overflow r \<noteq> NaN"
  by (simp add: overflow_def)

lemma js_add_Fin_not_NaN: "x \<noteq> NaN \<Longrightarrow> js_add (Fin a) x \<noteq> NaN"
  by (cases x) simp_all

lemma js_sub_Fin_not_NaN: "x \<noteq> NaN \<Longrightarrow> js_sub x (Fin a) \<noteq> NaN"
  by (cases x) (simp_all add: js_sub_def)

lemma js_mul_Fin_not_NaN: "x \<noteq> NaN \<Longrightarrow> a \<noteq> 0 \<Longrightarrow> js_mul x (Fin a) \<noteq> NaN"
  by (cases x) simp_all

lemma js_mul_Fin_not_NaN': "x \<noteq> NaN \<Longrightarrow> a \<noteq> 0 \<Longrightarrow> js_mul (Fin a) x \<noteq> NaN"
  by (cases x) simp_all

lemma Math_sqrt_not_NInf [simp]: "Math_sqrt x \<noteq> NInf"
  by (cases x) simp_all

lemma getTouchDistance_not_NInf [simp]: "getTouchDistance ts \<noteq> Some NInf"
  by (simp add: getTouchDistance_def Let_def)

lemma truthy_finite:
  "truthy_num d \<Longrightarrow> d \<noteq> Some PInf \<Longrightarrow> d \<noteq> Some NInf \<Longrightarrow> \<exists>a. d = Some (Fin a) \<and> a \<noteq> 0"
proof (cases d)
  case None
  assume "truthy_num d"
  with None show ?thesis by simp
next
  case (Some x)
  assume "truthy_num d" "d \<noteq> Some PInf" "d \<noteq> Some NInf"
  with Some show ?thesis by (cases x) simp_all
qed

lemma inRange_Fin: "inRange z \<Longrightarrow> \<exists>r. z = Fin r \<and> r \<noteq> 0"
  by (cases z) (auto simp: inRange_def)

lemma handleWheel_steady: "steady vp \<Longrightarrow> steady (handleWheel e vp)"
proof -
  assume s: "steady vp"
  then obtain r where z: "zoom vp = Fin r" "r \<noteq> 0" using inRange_Fin by (auto simp: steady_def)
  have "inRange (Math_max (Fin (1 / 10)) (Math_min (Fin 3) (js_mul (zoom vp) (Fin d))))"
    if "d \<noteq> 0" for d
    by (rule clamp_inRange) (simp add: z)
  with s show ?thesis by (simp add: handleWheel_def Let_def steady_def)
qed

lemma handleTouchMove_steady:
  assumes s: "steady vp" and f: "getTouchDistance ts \<noteq> Some PInf"
  shows "steady (handleTouchMove ts vp)"
proof (cases "length ts = 2 \<and> truthy_num (lastTouchDistance vp) \<and> truthy_num (getTouchDistance ts)")
  case False
  with s show ?thesis by (auto simp: handleTouchMove_def Let_def)
next
  case True
  from s obtain r where z: "zoom vp = Fin r" "r \<noteq> 0" using inRange_Fin by (auto simp: steady_def)
  from True s obtain b where b: "lastTouchDistance vp = Some (Fin b)" "b \<noteq> 0"
    using truthy_finite [of "lastTouchDistance vp"] by (auto simp: steady_def)
  from True f obtain a where a: "getTouchDistance ts = Some (Fin a)" "a \<noteq> 0"
    using truthy_finite [of "getTouchDistance ts"] by auto
  let ?raw = "js_div (Fin a) (Fin b)"
  let ?damped = "js_add (Fin 1) (js_mul (js_sub ?raw (Fin 1)) (Fin (3 / 10)))"
  have "?raw \<noteq> NaN" using b by simp
  then have "js_sub ?raw (Fin 1) \<noteq> NaN" by (rule js_sub_Fin_not_NaN)
  then have "js_mul (js_sub ?raw (Fin 1)) (Fin (3 / 10)) \<noteq> NaN" by (rule js_mul_Fin_not_NaN) simp
  then have "?damped \<noteq> NaN" by (rule js_add_Fin_not_NaN)
  then have "js_mul (Fin r) ?damped \<noteq> NaN" using z(2) by (rule js_mul_Fin_not_NaN')
  then have "inRange (Math_max (Fin (1 / 10)) (Math_min (Fin 3) (js_mul (Fin r) ?damped)))"
    by (rule clamp_inRange)
  with True z a b show ?thesis
    by (simp add: handleTouchMove_def Let_def steady_def)
qed

lemma dispatch_steady: "steady vp \<Longrightarrow> finite_distance g \<Longrightarrow> steady (dispatch vp g)"
proof (cases g)
  case (Wheel e)
  assume "steady vp"
  with Wheel show ?thesis by (simp add: handleWheel_steady)
next
  case (TouchStart ts)
  assume "steady vp" "finite_distance g"
  with TouchStart show ?thesis by (simp add: handleTouchStart_def steady_def finite_distance_def)
next
  case (TouchMove ts)
  assume "steady vp" "finite_distance g"
  with TouchMove show ?thesis by (simp add: handleTouchMove_steady finite_distance_def)
next
  case TouchEnd
  assume "steady vp"
  with TouchEnd show ?thesis by (simp add: handleTouchEnd_def steady_def)
qed

lemma zoom_bounded_finite:
  assumes "steady vp" and "\<forall>g\<in>set gs. finite_distance g"
  shows "inRange (zoom (foldl dispatch vp gs))"
  using assms
proof (induction gs arbitrary: vp)
  case Nil
  then show ?case by (simp add: steady_def)
next
  case (Cons g gs)
  then show ?case by (simp add: dispatch_steady)
qed

subsection \<open>Child lists and parent references\<close>

lemma kids_push_child [simp]: "kids (push_child q c ns) i = kids ns i"
  by (induction ns) (simp_all add: kids_def)

lemma kids_append [simp]: "kids (xs @ ys) i = kids xs i @ kids ys i"
  by (simp add: kids_def)

lemma kids_single: "kids [n] i = (if node_parent n = Some i then [node_id n] else [])"
  by (simp add: kids_def)

lemma ids_ok_fresh: "ids_ok st \<Longrightarrow> node_name (nodeId st) \<notin> node_id ` set (nodes st)"
proof -
  assume "ids_ok st"
  then have "set (map node_id (nodes st)) = set (map node_name [0..<nodeId st])"
    by (simp only: ids_ok_def)
  then have "node_id ` set (nodes st) = node_name ` {0..<nodeId st}" by simp
  then show ?thesis by auto
qed

lemma ids_ok_truthy: "ids_ok st \<Longrightarrow> n \<in> set (nodes st) \<Longrightarrow> truthy (node_id n)"
proof -
  assume "ids_ok st" and n: "n \<in> set (nodes st)"
  then have "set (map node_id (nodes st)) = set (map node_name [0..<nodeId st])"
    by (simp only: ids_ok_def)
  then have "node_id ` set (nodes st) = node_name ` {0..<nodeId st}" by simp
  with n obtain j where "node_id n = node_name j" by blast
  then show ?thesis by simp
qed

lemma emit_ids_set:
  "node_id ` set (nodes (emit E v k p l st)) = insert (node_name (nodeId st)) (node_id ` set (nodes st))"
proof -
  have "set (map node_id (nodes (emit E v k p l st))) =
        set (map node_id (nodes st) @ [node_name (nodeId st)])"
    by (simp only: emit_ids)
  then show ?thesis by simp
qed

lemma emit_kids:
  "kids (nodes (emit E v k p l st)) i =
     kids (nodes st) i @ (if p = Some i then [node_name (nodeId st)] else [])"
  by (simp add: emit_nodes kids_single)

lemma emit_member:
  assumes "ids_ok st" and "known p st" and "n' \<in> set (nodes (emit E v k p l st))"
  shows "n' = (new_node E v k p l (nodeId st)) \<or>
         (\<exists>n\<in>set (nodes st). n' =
            (if truthy_opt p \<and> node_id n = the p
             then n\<lparr>node_children := node_children n @ [node_name (nodeId st)]\<rparr> else n))"
proof (cases "truthy_opt p")
  case False
  with assms(3) show ?thesis by (auto simp: emit_nodes)
next
  case True
  let ?node = "new_node E v k p l (nodeId st)"
  let ?upd = "\<lambda>n. if node_id n = the p
       then n\<lparr>node_children := node_children n @ [node_name (nodeId st)]\<rparr> else n"
  have "distinct (map node_id (nodes st @ [?node]))"
    using ids_ok_distinct [OF assms(1)] ids_ok_fresh [OF assms(1)] by simp
  then have eq: "push_child (the p) (node_name (nodeId st)) (nodes st @ [?node]) =
      map ?upd (nodes st @ [?node])"
    by (rule push_child_distinct)
  from True assms(2) have "the p \<in> node_id ` set (nodes st)"
    by (cases p) (auto simp: known_def)
  with ids_ok_fresh [OF assms(1)] have neq: "node_id ?node \<noteq> the p" by auto
  from assms(3) True have "n' \<in> set (map ?upd (nodes st @ [?node]))"
    by (simp only: emit_nodes eq if_True)
  then have "n' = ?upd ?node \<or> (\<exists>n\<in>set (nodes st). n' = ?upd n)" by auto
  then show ?thesis
  proof
    assume n': "n' = ?upd ?node"
    with neq show ?thesis by simp
  next
    assume "\<exists>n\<in>set (nodes st). n' = ?upd n"
    with True show ?thesis by auto
  qed
qed

lemma emit_linked:
  assumes inv: "linked st" and g: "known p st"
  shows "linked (emit E v k p l st)"
proof -
  let ?st' = "emit E v k p l st"
  let ?cid = "node_name (nodeId st)"
  from inv have ok: "ids_ok st"
    and kc: "\<And>n. n \<in> set (nodes st) \<Longrightarrow> node_children n = kids (nodes st) (node_id n)"
    and pv: "\<And>m q. m \<in> set (nodes st) \<Longrightarrow> node_parent m = Some q \<Longrightarrow> truthy q \<Longrightarrow>
                q \<in> node_id ` set (nodes st)"
    by (auto simp: linked_def)
  have fresh: "?cid \<notin> node_id ` set (nodes st)" using ok by (rule ids_ok_fresh)
  have nokid: "kids (nodes st) ?cid = []"
  proof -
    have "\<not> (\<exists>m\<in>set (nodes st). node_parent m = Some ?cid)"
      using pv fresh by (metis node_name_truthy)
    then show ?thesis by (auto simp: kids_def filter_empty_conv)
  qed
  have pne: "p \<noteq> Some ?cid"
    using g fresh by (auto simp: known_def)
  have c1: "ids_ok ?st'" using ok by (rule emit_ids_ok)
  have c2: "node_children n' = kids (nodes ?st') (node_id n')" if n': "n' \<in> set (nodes ?st')" for n'
  proof -
    from emit_member [OF ok g n'] show ?thesis
    proof
      assume "n' = new_node E v k p l (nodeId st)"
      then show ?thesis using nokid pne by (simp add: emit_kids)
    next
      assume "\<exists>n\<in>set (nodes st). n' =
            (if truthy_opt p \<and> node_id n = the p
             then n\<lparr>node_children := node_children n @ [?cid]\<rparr> else n)"
      then obtain n where n: "n \<in> set (nodes st)" and eq: "n' =
            (if truthy_opt p \<and> node_id n = the p
             then n\<lparr>node_children := node_children n @ [?cid]\<rparr> else n)" by blast
      have tn: "truthy (node_id n)" using ok n by (rule ids_ok_truthy)
      show ?thesis
      proof (cases "truthy_opt p \<and> node_id n = the p")
        case True
        then have "p = Some (node_id n)" by (cases p) auto
        moreover from eq have "n' = n\<lparr>node_children := node_children n @ [?cid]\<rparr>"
          by (simp only: if_P [OF True])
        ultimately show ?thesis using kc [OF n] by (simp add: emit_kids)
      next
        case False
        then have "p \<noteq> Some (node_id n)" using tn by (cases p) auto
        moreover from eq have "n' = n" by (simp only: if_not_P [OF False])
        ultimately show ?thesis using kc [OF n] by (simp add: emit_kids)
      qed
    qed
  qed
  have c3: "q \<in> node_id ` set (nodes ?st')"
    if m: "m \<in> set (nodes ?st')" and pq: "node_parent m = Some q" and tq: "truthy q" for m q
  proof -
    from emit_member [OF ok g m] show ?thesis
    proof
      assume "m = new_node E v k p l (nodeId st)"
      with pq have "p = Some q" by simp
      with g tq show ?thesis by (simp add: known_def emit_ids_set)
    next
      assume "\<exists>n\<in>set (nodes st). m =
            (if truthy_opt p \<and> node_id n = the p
             then n\<lparr>node_children := node_children n @ [?cid]\<rparr> else n)"
      then obtain n where n: "n \<in> set (nodes st)" and "node_parent m = node_parent n"
        by (auto split: if_splits)
      with pq tq pv [OF n] show ?thesis by (simp add: emit_ids_set)
    qed
  qed
  from c1 c2 c3 show ?thesis unfolding linked_def by blast
qed

lemma emit_known_mono: "known q st \<Longrightarrow> known q (emit E v k p l st)"
  by (auto simp: known_def emit_ids_set)

lemma emit_known_self: "known (Some (node_name (nodeId st))) (emit E v k p l st)"
  by (simp add: known_def emit_ids_set)

lemma traverse_linked:
  assumes "linked st" and "known p st"
  shows "linked (snd (traverse d E v k p l st))"
  using traverse_invariant [of linked known E st p d v k l] assms
  by (simp add: emit_linked emit_known_mono emit_known_self)

lemma build_linked: "linked (build d E D)"
  unfolding build_def
  by (rule traverse_linked) (simp_all add: linked_def known_def init_def ids_ok_def)

lemma pointed_core: "pointed (map core ns) i = pointed ns i"
  by (simp add: pointed_def)

lemma opened_core: "opened E (map core ns) i = opened E ns i"
  by (simp add: opened_def)

lemma pointed_prefix: "prefix xs ys \<Longrightarrow> pointed xs i \<Longrightarrow> pointed ys i"
  by (auto simp: prefix_def pointed_def)

lemma opened_prefix: "prefix xs ys \<Longrightarrow> opened E xs i \<Longrightarrow> opened E ys i"
  by (auto simp: prefix_def opened_def)

lemma pointed_mono:
  "prefix (map core ns) (map core ns') \<Longrightarrow> pointed ns i \<Longrightarrow> pointed ns' i"
  using pointed_prefix [of "map core ns" "map core ns'" i] by (simp add: pointed_core)

lemma opened_mono:
  "prefix (map core ns) (map core ns') \<Longrightarrow> opened E ns i \<Longrightarrow> opened E ns' i"
  using opened_prefix [of "map core ns" "map core ns'" E i] by (simp add: opened_core)

lemma emit_prefix: "prefix (map core (nodes st)) (map core (nodes (emit E v k p l st)))"
  by (simp add: emit_core)

lemma core_member:
  "n \<in> set (nodes (emit E v k p l st)) \<Longrightarrow>
   core n = core (new_node E v k p l (nodeId st)) \<or> (\<exists>m\<in>set (nodes st). core n = core m)"
proof -
  assume "n \<in> set (nodes (emit E v k p l st))"
  then have "core n \<in> core ` set (nodes (emit E v k p l st))" by simp
  then show ?thesis unfolding emit_set_core by auto
qed

lemma emit_justified:
  assumes inv: "justified E st"
    and g: "\<forall>q. p = Some q \<longrightarrow> truthy q \<longrightarrow> opened E (nodes st) q"
  shows "justified E (emit E v k p l st)"
  unfolding justified_def
proof (intro ballI allI impI)
  fix m q
  assume m: "m \<in> set (nodes (emit E v k p l st))" and pq: "node_parent m = Some q" and tq: "truthy q"
  from core_member [OF m] have "opened E (nodes st) q"
  proof
    assume "core m = core (new_node E v k p l (nodeId st))"
    then have "node_parent m = p" by (metis core_fields(9) new_node_fields(9))
    with pq tq g show ?thesis by simp
  next
    assume "\<exists>n\<in>set (nodes st). core m = core n"
    then obtain n where n: "n \<in> set (nodes st)" and "core m = core n" by blast
    then have "node_parent n = node_parent m" by (metis core_fields(9))
    with n pq tq inv show ?thesis by (simp add: justified_def)
  qed
  then show "opened E (nodes (emit E v k p l st)) q"
    by (rule opened_mono [OF emit_prefix])
qed

lemma traverse_justified:
  fixes st :: "'n closure"
  assumes "justified E st" and "\<forall>q. p = Some q \<longrightarrow> truthy q \<longrightarrow> opened E (nodes st) q"
  shows "justified E (snd (traverse d E v k p l st))"
proof -
  let ?G = "\<lambda>p (s::'n closure). \<forall>q. p = Some q \<longrightarrow> truthy q \<longrightarrow> opened E (nodes s) q"
  have "justified E (snd (traverse d E v k p l st)) \<and>
        (\<forall>c. ?G (Some (node_name c)) st \<longrightarrow> ?G (Some (node_name c)) (snd (traverse d E v k p l st)))"
  proof (rule traverse_invariant [where Inv = "justified E" and G = ?G])
    fix v k p l c and s :: "'n closure"
    assume "?G (Some (node_name c)) s"
    then show "?G (Some (node_name c)) (emit E v k p l s)"
      using opened_mono [OF emit_prefix] by blast
  next
    fix k p l and v :: "'n json" and s :: "'n closure"
    assume "hasChildren v" and "node_name (nodeId s) \<in> E"
    then have "opened E [new_node E v k p l (nodeId s)] (node_name (nodeId s))"
      by (simp add: opened_def)
    then have "opened E [core (new_node E v k p l (nodeId s))] (node_name (nodeId s))"
      by (simp add: opened_def)
    then have "opened E (map core (nodes (emit E v k p l s))) (node_name (nodeId s))"
      unfolding emit_core by (auto simp: opened_def)
    then have "opened E (nodes (emit E v k p l s)) (node_name (nodeId s))"
      by (simp add: opened_core)
    then show "?G (Some (node_name (nodeId s))) (emit E v k p l s)" by simp
  qed (simp_all add: emit_justified assms)
  then show ?thesis by simp
qed

lemma build_justified: "justified E (build d E D)"
  unfolding build_def by (rule traverse_justified) (simp_all add: justified_def init_def)

lemma emit_nodeId_le: "c \<le> nodeId st \<Longrightarrow> c \<le> nodeId (emit E v k p l st)"
  by simp

lemma traverse_nodeId_le: "c \<le> nodeId st \<Longrightarrow> c \<le> nodeId (snd (traverse d E v k p l st))"
  by (rule traverse_inv [where Inv = "\<lambda>s. c \<le> nodeId s"]) simp_all

lemma children_prefix:
  fixes r :: "completion \<times> 'n closure"
  shows "prefix (map core (nodes (snd r)))
     (map core (nodes (snd (foldl (visit d E (node_name c) l) r cs))))"
proof (rule traverse_children_inv [where Inv = "\<lambda>s::'n closure. prefix (map core (nodes (snd r))) (map core (nodes s))"])
  show "prefix (map core (nodes (snd r))) (map core (nodes (snd r)))" by simp
next
  fix v k p l and s :: "'n closure"
  assume "prefix (map core (nodes (snd r))) (map core (nodes s))"
  then show "prefix (map core (nodes (snd r))) (map core (nodes (emit E v k p l s)))"
    by (simp add: emit_core)
qed

lemma served_emit:
  fixes st :: "'n closure"
  assumes s: "served E X st" and skip: "node_name (nodeId st) \<in> Y \<or> \<not> (hasChildren v \<and> node_name (nodeId st) \<in> E)"
    and sub: "X \<subseteq> Y"
  shows "served E Y (emit E v k p l st)"
  unfolding served_def
proof (intro ballI impI)
  fix n
  assume n: "n \<in> set (nodes (emit E v k p l st))" and nx: "node_id n \<notin> Y"
    and hc: "hasChildren (node_value n)" and ne: "node_id n \<in> E"
  from core_member [OF n] have "pointed (nodes st) (node_id n)"
  proof
    assume c: "core n = core (new_node E v k p l (nodeId st))"
    then have "node_id n = node_name (nodeId st)" by (metis core_fields(1) new_node_fields(1))
    moreover from c have "node_value n = v" by (metis core_fields(3) new_node_fields(3))
    ultimately show ?thesis using skip nx hc ne by simp
  next
    assume "\<exists>m\<in>set (nodes st). core n = core m"
    then obtain m where m: "m \<in> set (nodes st)" and c: "core n = core m" by blast
    from c have im: "node_id m = node_id n" by (metis core_fields(1))
    from c have vm: "node_value m = node_value n" by (metis core_fields(3))
    from nx sub have "node_id m \<notin> X" unfolding im by blast
    moreover have "hasChildren (node_value m)" "node_id m \<in> E" using hc ne by (simp_all add: im vm)
    ultimately have "pointed (nodes st) (node_id m)" using s m unfolding served_def by blast
    then show ?thesis by (simp add: im)
  qed
  then show "pointed (nodes (emit E v k p l st)) (node_id n)"
    by (rule pointed_mono [OF emit_prefix])
qed

text \<open>
  When the traversal returns, every expanded node with children has been given a child.
\<close>

lemma traverse_served:
  fixes st :: "'n closure"
  shows "served E X st \<Longrightarrow> \<forall>j\<ge>nodeId st. node_name j \<notin> X \<Longrightarrow>
         fst (traverse d E v k p l st) = Normal \<Longrightarrow>
         served E X (snd (traverse d E v k p l st))"
proof (induction d v k p l st arbitrary: X rule: traverse_induct)
  case (step d v k p l st)
  let ?c = "nodeId st"
  let ?cid = "node_name ?c"
  let ?st1 = "emit E v k p l st"
  let ?f = "visit d E ?cid (l + 1)"
  show ?case
  proof (cases "hasChildren v \<and> ?cid \<in> E")
    case False
    have "served E X ?st1" using step.prems(1) by (rule served_emit) (use False in auto)
    with False show ?thesis by (simp add: traverse_leaf)
  next
    case True
    let ?Y = "insert ?cid X"
    let ?fin = "foldl ?f (Normal, ?st1) (children_of v)"
    from True have eq: "traverse d E v k p l st = ?fin" by (simp add: traverse_node)
    with step.prems(3) have nf: "fst ?fin = Normal" by simp
    define I where "I r \<longleftrightarrow> (fst r = Normal \<longrightarrow> served E ?Y (snd r)) \<and> Suc ?c \<le> nodeId (snd r)"
      for r :: "completion \<times> 'n closure"
    have fin: "I ?fin"
    proof (rule foldl_invariant)
      have "served E ?Y ?st1" using step.prems(1) by (rule served_emit) auto
      then show "I (Normal, ?st1)" by (simp add: I_def)
    next
      fix x r
      assume x: "x \<in> set (children_of v)" and Ir: "I r"
      show "I (?f r x)"
      proof (cases rule: visit_cases [where d = d and E = E and cid = ?cid and l = "l + 1" and r = r and x = x])
        case skip
        with Ir show ?thesis by (simp add: I_def)
      next
        case (call ck cv)
        from Ir call(2) have a: "served E ?Y (snd r)" and b: "Suc ?c \<le> nodeId (snd r)"
          by (simp_all add: I_def)
        have fr: "\<forall>j\<ge>nodeId (snd r). node_name j \<notin> ?Y" using step.prems(2) b by auto
        from x call(1) have mem: "(ck, cv) \<in> set (children_of v)" by simp
        let ?r' = "traverse (d - 1) E cv ck (Some ?cid) (l + 1) (snd r)"
        show ?thesis unfolding call(4) I_def
        proof (intro conjI impI)
          assume "fst ?r' = Normal"
          then show "served E ?Y (snd ?r')" by (rule step.IH [OF mem a fr])
        next
          show "Suc ?c \<le> nodeId (snd ?r')" using b by (rule traverse_nodeId_le)
        qed
      qed
    qed
    from True have "children_of v \<noteq> []" by (simp add: hasChildren_children_of)
    then obtain ck cv rest where cs: "children_of v = (ck, cv) # rest"
      by (cases "children_of v") auto
    have fin_eq: "?fin = foldl ?f (?f (Normal, ?st1) (ck, cv)) rest" by (simp add: cs)
    with nf have "fst (?f (Normal, ?st1) (ck, cv)) = Normal" by (simp add: visit_fold_Normal)
    then have d0: "d \<noteq> 0" by (cases "d = 0") (simp_all add: visit_def)
    let ?r2 = "traverse (d - 1) E cv ck (Some ?cid) (l + 1) ?st1"
    from d0 have v2: "?f (Normal, ?st1) (ck, cv) = ?r2" by (simp add: visit_def)
    have "prefix (map core (nodes ?st1) @ [core (new_node E cv ck (Some ?cid) (l + 1) (nodeId ?st1))])
            (map core (nodes (snd ?r2)))"
      by (rule traverse_first)
    then have "pointed (map core (nodes (snd ?r2))) ?cid"
      by (rule pointed_prefix) (simp add: pointed_def)
    then have "pointed (nodes (snd ?r2)) ?cid" by (simp add: pointed_core)
    then have pt: "pointed (nodes (snd ?fin)) ?cid"
      unfolding fin_eq v2 using children_prefix [of ?r2 d E ?c "l + 1" rest]
      by (auto intro: pointed_mono)
    have "served E X (snd ?fin)"
      unfolding served_def
    proof (intro ballI impI)
      fix n
      assume n: "n \<in> set (nodes (snd ?fin))" and nx: "node_id n \<notin> X"
        and hc: "hasChildren (node_value n)" and ne: "node_id n \<in> E"
      show "pointed (nodes (snd ?fin)) (node_id n)"
      proof (cases "node_id n = ?cid")
        case True
        with pt show ?thesis by simp
      next
        case False
        with nx have "node_id n \<notin> ?Y" by simp
        with fin nf n hc ne show ?thesis by (simp add: I_def served_def)
      qed
    qed
    with eq show ?thesis by simp
  qed
qed

lemma build_served: "returns d E D \<Longrightarrow> served E {} (build d E D)"
  unfolding build_def returns_def by (rule traverse_served) (simp_all add: served_def init_def)

lemma hasChildren_iff:
  "hasChildren v \<longleftrightarrow> (\<exists>es. v = JObject es \<and> es \<noteq> []) \<or> (\<exists>xs. v = JArray xs \<and> xs \<noteq> [])"
  by (cases v) (simp_all add: hasChildren_def Object_keys_def)

lemma kids_pairs:
  "kids ns i = map fst (filter (\<lambda>x. snd x = Some i) (map (\<lambda>m. (node_id m, node_parent m)) ns))"
  by (induction ns) (simp_all add: kids_def)

lemma kids_positionNodes: "kids (positionNodes ns) i = kids ns i"
  unfolding kids_pairs
  by (subst positionNodes_map) simp_all

lemma kids_pointed: "kids ns i \<noteq> [] \<longleftrightarrow> pointed ns i"
  by (auto simp: kids_def pointed_def filter_empty_conv)

text \<open>
  The child list of a built node holds the ids of the nodes whose parent it is. It is
  non-empty only for the expanded nodes with children, and for every such node when the
  traversal has returned.
\<close>

lemma build_children:
  fixes D :: "'n json"
  assumes m: "m \<in> set (nodes (build d E D))"
  shows "node_children m = kids (nodes (build d E D)) (node_id m)"
    and "node_children m \<noteq> [] \<Longrightarrow> hasChildren (node_value m) \<and> node_id m \<in> E"
    and "returns d E D \<Longrightarrow> hasChildren (node_value m) \<and> node_id m \<in> E \<Longrightarrow> node_children m \<noteq> []"
proof -
  let ?b = "build d E D"
  from build_linked [of d E D] have ok: "ids_ok ?b"
    and kc: "\<And>n. n \<in> set (nodes ?b) \<Longrightarrow> node_children n = kids (nodes ?b) (node_id n)"
    by (auto simp: linked_def)
  from kc [OF m] show ch: "node_children m = kids (nodes ?b) (node_id m)" .
  have inj: "inj_on node_id (set (nodes ?b))"
    using ids_ok_distinct [OF ok] by (simp add: distinct_map)
  show "hasChildren (node_value m) \<and> node_id m \<in> E" if "node_children m \<noteq> []"
  proof -
    from that have "pointed (nodes ?b) (node_id m)" by (simp add: ch kids_pointed)
    then obtain c where c: "c \<in> set (nodes ?b)" and pc: "node_parent c = Some (node_id m)"
      by (auto simp: pointed_def)
    have "truthy (node_id m)" using ok m by (rule ids_ok_truthy)
    with build_justified [of E d D] c pc have "opened E (nodes ?b) (node_id m)"
      by (simp add: justified_def)
    then obtain n where n: "n \<in> set (nodes ?b)" and idn: "node_id n = node_id m"
      and hc: "hasChildren (node_value n)" and e: "node_id m \<in> E"
      by (auto simp: opened_def)
    from inj idn n m have "n = m" by (rule inj_onD)
    with hc e show ?thesis by simp
  qed
  show "node_children m \<noteq> []" if "returns d E D" and "hasChildren (node_value m) \<and> node_id m \<in> E"
  proof -
    from build_served [OF that(1)] m that(2) have "pointed (nodes ?b) (node_id m)"
      by (simp add: served_def)
    then show ?thesis by (simp add: ch kids_pointed)
  qed
qed

subsection \<open>Toggling one id\<close>

lemma setExp_id [simp]: "node_id (setExp L b n) = node_id n"
  by (simp add: setExp_def)

lemma setExp_fields [simp]:
  "node_value (setExp L b n) = node_value n" "node_level (setExp L b n) = node_level n"
  "node_height (setExp L b n) = node_height n" "node_parent (setExp L b n) = node_parent n"
  by (simp_all add: setExp_def)

lemma push_child_setExp:
  "push_child q c (map (setExp L b) ns) = map (setExp L b) (push_child q c ns)"
  by (induction ns) (simp_all add: setExp_def)

lemma new_node_setExp:
  assumes "node_name c = L \<longrightarrow> \<not> hasChildren v"
  shows "new_node (insert L E) v k p l c = setExp L True (new_node (E - {L}) v k p l c)"
proof (cases "node_name c = L")
  case True
  with assms show ?thesis by (simp add: new_node_def setExp_def extraHeight_def)
next
  case False
  then show ?thesis by (simp add: new_node_def setExp_def extraHeight_def)
qed

lemma emit_rel:
  assumes r: "rel L s1 s2" and leaf: "node_name (nodeId s2) = L \<longrightarrow> \<not> hasChildren v"
  shows "rel L (emit (insert L E) v k p l s1) (emit (E - {L}) v k p l s2)"
proof -
  from r have c: "nodeId s1 = nodeId s2" and e: "edges s1 = edges s2"
    and n: "nodes s1 = map (setExp L True) (nodes s2)" by (simp_all add: rel_def)
  have "nodes (emit (insert L E) v k p l s1) = map (setExp L True) (nodes (emit (E - {L}) v k p l s2))"
    by (simp add: emit_nodes c n new_node_setExp [OF leaf] push_child_setExp [symmetric])
  then show ?thesis by (simp add: rel_def emit_edges c e)
qed

lemma leafy_core: "leafy L (map core ns) = leafy L ns"
  by (simp add: leafy_def)

lemma leafy_prefix: "prefix xs ys \<Longrightarrow> leafy L ys \<Longrightarrow> leafy L xs"
  by (auto simp: prefix_def leafy_def)

lemma leafy_mono:
  "prefix (map core ns) (map core ns') \<Longrightarrow> leafy L ns' \<Longrightarrow> leafy L ns"
  using leafy_prefix [of "map core ns" "map core ns'" L] by (simp add: leafy_core)

lemma leafy_first:
  assumes "leafy L (nodes (snd (traverse d E v k p l st)))"
  shows "node_name (nodeId st) = L \<longrightarrow> \<not> hasChildren v"
proof -
  from assms have "leafy L (map core (nodes (snd (traverse d E v k p l st))))"
    by (simp add: leafy_core)
  with traverse_first [of st E v k p l d]
  have "leafy L (map core (nodes st) @ [core (new_node E v k p l (nodeId st))])"
    by (rule leafy_prefix)
  then show ?thesis by (simp add: leafy_def)
qed

lemma foldl2_induct:
  assumes base: "R s0 t0"
    and step: "\<And>ys x zs s t. xs = ys @ x # zs \<Longrightarrow> s = foldl f s0 ys \<Longrightarrow> t = foldl g t0 ys \<Longrightarrow>
                 R s t \<Longrightarrow> R (f s x) (g t x)"
  shows "R (foldl f s0 xs) (foldl g t0 xs)"
proof -
  have "xs = ys @ zs \<Longrightarrow> R (foldl f s0 ys) (foldl g t0 ys)" for ys zs
  proof (induction ys arbitrary: zs rule: rev_induct)
    case Nil
    show ?case using base by simp
  next
    case (snoc x ys)
    from snoc.prems have eq: "xs = ys @ x # zs" by simp
    then have "R (foldl f s0 ys) (foldl g t0 ys)" by (rule snoc.IH)
    with eq have "R (f (foldl f s0 ys) x) (g (foldl g t0 ys) x)" by (intro step) auto
    then show ?case by simp
  qed
  from this [of xs "[]"] show ?thesis by simp
qed

text \<open>
  Two traversals on the same stack that differ in the membership of a leaf id make the
  same calls, so they return or throw together.
\<close>

lemma traverse_rel:
  fixes s1 :: "'n closure"
  shows "rel L s1 s2 \<Longrightarrow>
     leafy L (nodes (snd (traverse d (insert L E) v k p l s1))) \<or>
     leafy L (nodes (snd (traverse d (E - {L}) v k p l s2))) \<Longrightarrow>
     fst (traverse d (insert L E) v k p l s1) = fst (traverse d (E - {L}) v k p l s2) \<and>
     rel L (snd (traverse d (insert L E) v k p l s1)) (snd (traverse d (E - {L}) v k p l s2))"
proof (induction d v k p l s1 arbitrary: s2 rule: traverse_induct)
  case (step d v k p l s1)
  let ?E1 = "insert L E" and ?E2 = "E - {L}"
  let ?cid = "node_name (nodeId s1)"
  from step.prems(1) have c: "nodeId s1 = nodeId s2" by (simp add: rel_def)
  from step.prems(2) have leaf: "node_name (nodeId s2) = L \<longrightarrow> \<not> hasChildren v"
    using leafy_first [of L d ?E1 v k p l s1] leafy_first [of L d ?E2 v k p l s2] c by auto
  let ?t1 = "emit ?E1 v k p l s1" and ?t2 = "emit ?E2 v k p l s2"
  have r1: "rel L ?t1 ?t2" using step.prems(1) leaf by (rule emit_rel)
  have same: "(hasChildren v \<and> ?cid \<in> ?E1) \<longleftrightarrow> (hasChildren v \<and> node_name (nodeId s2) \<in> ?E2)"
    using leaf c by auto
  show ?case
  proof (cases "hasChildren v \<and> ?cid \<in> ?E1")
    case False
    with same r1 show ?thesis by (simp add: traverse_leaf)
  next
    case True
    let ?f = "visit d ?E1 ?cid (l + 1)"
    let ?g = "visit d ?E2 ?cid (l + 1)"
    from True same have e1: "traverse d ?E1 v k p l s1 = foldl ?f (Normal, ?t1) (children_of v)"
      and e2: "traverse d ?E2 v k p l s2 = foldl ?g (Normal, ?t2) (children_of v)"
      by (simp_all add: traverse_node c)
    define R where "R a b \<longleftrightarrow> fst a = fst b \<and> rel L (snd a) (snd b)"
      for a b :: "completion \<times> 'n closure"
    have "R (foldl ?f (Normal, ?t1) (children_of v)) (foldl ?g (Normal, ?t2) (children_of v))"
    proof (rule foldl2_induct)
      show "R (Normal, ?t1) (Normal, ?t2)" using r1 by (simp add: R_def)
    next
      fix ys x zs a b
      assume xs: "children_of v = ys @ x # zs" and a: "a = foldl ?f (Normal, ?t1) ys"
        and b: "b = foldl ?g (Normal, ?t2) ys" and r: "R a b"
      obtain ck cv where x: "x = (ck, cv)" by (cases x)
      from xs x have mem: "(ck, cv) \<in> set (children_of v)" by simp
      from r have fst_eq: "fst a = fst b" and rl: "rel L (snd a) (snd b)" by (simp_all add: R_def)
      show "R (?f a x) (?g b x)"
      proof (cases "fst a = Normal \<and> d \<noteq> 0")
        case False
        then have "?f a x = (RangeError, snd a)" and "?g b x = (RangeError, snd b)"
          using fst_eq by (cases "fst a"; cases "fst b"; simp add: visit_def case_prod_unfold)+
        with rl show ?thesis by (simp add: R_def)
      next
        case True
        then have fa: "?f a x = traverse (d - 1) ?E1 cv ck (Some ?cid) (l + 1) (snd a)"
          and gb: "?g b x = traverse (d - 1) ?E2 cv ck (Some ?cid) (l + 1) (snd b)"
          using fst_eq by (simp_all add: visit_def case_prod_unfold x)
        have f1: "foldl ?f (Normal, ?t1) (children_of v) = foldl ?f (?f a x) zs" by (simp add: xs a)
        have f2: "foldl ?g (Normal, ?t2) (children_of v) = foldl ?g (?g b x) zs" by (simp add: xs b)
        have p1: "prefix (map core (nodes (snd (?f a x))))
                    (map core (nodes (snd (foldl ?f (Normal, ?t1) (children_of v)))))"
          unfolding f1 by (rule children_prefix)
        have p2: "prefix (map core (nodes (snd (?g b x))))
                    (map core (nodes (snd (foldl ?g (Normal, ?t2) (children_of v)))))"
          unfolding f2 by (rule children_prefix)
        from step.prems(2) have "leafy L (nodes (snd (?f a x))) \<or> leafy L (nodes (snd (?g b x)))"
          unfolding e1 e2 using leafy_mono [OF p1] leafy_mono [OF p2] by blast
        then have "leafy L (nodes (snd (traverse (d - 1) ?E1 cv ck (Some ?cid) (l + 1) (snd a)))) \<or>
                   leafy L (nodes (snd (traverse (d - 1) ?E2 cv ck (Some ?cid) (l + 1) (snd b))))"
          by (simp only: fa gb)
        then have "fst (traverse (d - 1) ?E1 cv ck (Some ?cid) (l + 1) (snd a)) =
                   fst (traverse (d - 1) ?E2 cv ck (Some ?cid) (l + 1) (snd b)) \<and>
                   rel L (snd (traverse (d - 1) ?E1 cv ck (Some ?cid) (l + 1) (snd a)))
                         (snd (traverse (d - 1) ?E2 cv ck (Some ?cid) (l + 1) (snd b)))"
          by (rule step.IH [OF mem rl])
        then show ?thesis by (simp only: R_def fa gb)
      qed
    qed
    then show ?thesis by (simp add: e1 e2 R_def)
  qed
qed

lemma levelGroups_map:
  assumes "\<And>n. node_level (f n) = node_level n"
  shows "levelGroups (map f ns) = levelGroups ns"
proof -
  have "foldl (\<lambda>gs i. group_push (node_level (map f ns ! i)) i gs) a is =
        foldl (\<lambda>gs i. group_push (node_level (ns ! i)) i gs) a is"
    if "\<forall>i\<in>set is. i < length ns" for a "is"
    using that by (induction "is" arbitrary: a) (simp_all add: assms)
  then show ?thesis by (simp add: levelGroups_def)
qed

lemma place_all_length: "length (fst (place_all (ns, y) sq)) = length ns"
proof (induction sq rule: rev_induct)
  case Nil
  show ?case by (simp add: place_all_def)
next
  case (snoc a sq)
  obtain x i where a: "a = (x, i)" by (cases a)
  obtain ps z where acc: "place_all (ns, y) sq = (ps, z)" by (cases "place_all (ns, y) sq")
  with snoc show ?case by (simp add: a place_all_snoc place_def)
qed

lemma place_all_map:
  assumes lv: "\<And>n. node_height (f n) = node_height n"
    and up: "\<And>n x y. f (n\<lparr>node_x := x, node_y := y\<rparr>) = (f n)\<lparr>node_x := x, node_y := y\<rparr>"
    and bound: "\<forall>i\<in>snd ` set sq. i < length ns"
  shows "place_all (map f ns, y) sq = (map f (fst (place_all (ns, y) sq)), snd (place_all (ns, y) sq))"
  using bound
proof (induction sq rule: rev_induct)
  case Nil
  show ?case by (simp add: place_all_def)
next
  case (snoc a sq)
  obtain x i where a: "a = (x, i)" by (cases a)
  obtain ps z where acc: "place_all (ns, y) sq = (ps, z)" by (cases "place_all (ns, y) sq")
  from snoc.prems a have i: "i < length ns" and b: "\<forall>i\<in>snd ` set sq. i < length ns" by auto
  from place_all_length [of ns y sq] acc have len: "length ps = length ns" by simp
  from snoc.IH [OF b] acc have ih: "place_all (map f ns, y) sq = (map f ps, z)" by simp
  show ?case
    by (simp add: a place_all_snoc ih acc place_def i len lv up map_update)
qed

lemma positionNodes_commute:
  assumes "\<And>n. node_level (f n) = node_level n" and "\<And>n. node_height (f n) = node_height n"
    and "\<And>n x y. f (n\<lparr>node_x := x, node_y := y\<rparr>) = (f n)\<lparr>node_x := x, node_y := y\<rparr>"
  shows "positionNodes (map f ns) = map f (positionNodes ns)"
proof -
  have pl: "placing (map f ns) = placing ns"
    by (simp add: placing_def levelGroups_map [of f, OF assms(1)])
  show ?thesis
    unfolding positionNodes_placing pl
    using place_all_map [of f "placing ns" ns 50, OF assms(2) assms(3) placing_bound]
    by simp
qed

lemma setExp_update:
  "setExp L b (n\<lparr>node_x := x, node_y := y\<rparr>) = (setExp L b n)\<lparr>node_x := x, node_y := y\<rparr>"
  by (simp add: setExp_def)

lemma build_rel:
  assumes "leafy L (nodes (build d (insert L E) D)) \<or> leafy L (nodes (build d (E - {L}) D))"
  shows "rel L (build d (insert L E) D) (build d (E - {L}) D)"
  unfolding build_def
  by (rule traverse_rel [THEN conjunct2]) (use assms in \<open>simp_all add: rel_def init_def build_def\<close>)

lemma leafy_pairs:
  "leafy L ns \<longleftrightarrow>
     (\<forall>x\<in>set (map (\<lambda>n. (node_id n, node_value n)) ns). fst x = L \<longrightarrow> \<not> hasChildren (snd x))"
  by (simp add: leafy_def)

lemma leafy_positionNodes: "leafy L (positionNodes ns) = leafy L ns"
proof -
  have eq: "map (\<lambda>n. (node_id n, node_value n)) (positionNodes ns) =
            map (\<lambda>n. (node_id n, node_value n)) ns"
    by (rule positionNodes_map) simp
  show ?thesis unfolding leafy_pairs eq by (rule refl)
qed

subsection \<open>The traversal pushes the pre-order listing, or a prefix of it\<close>

lemma core_new_node [simp]: "core (new_node E v k p l c) = new_node E v k p l c"
  by (simp add: core_def new_node_def)

lemma traverse_preorder:
  fixes st :: "'n closure"
  shows "\<exists>ys. map core (nodes (snd (traverse d E v k p l st))) = map core (nodes st) @ ys \<and>
              nodeId (snd (traverse d E v k p l st)) = nodeId st + length ys \<and>
              prefix ys (preorder E v k p l (nodeId st)) \<and>
              (fst (traverse d E v k p l st) = Normal \<longrightarrow> ys = preorder E v k p l (nodeId st))"
proof (induction d v k p l st rule: traverse_induct)
  case (step d v k p l st)
  let ?c = "nodeId st"
  let ?cid = "node_name ?c"
  let ?st1 = "emit E v k p l st"
  show ?case
  proof (cases "hasChildren v \<and> ?cid \<in> E")
    case False
    then have "preorder E v k p l ?c = [new_node E v k p l ?c]"
      by (subst preorder.simps) auto
    with False show ?thesis by (simp add: traverse_leaf emit_core)
  next
    case True
    let ?f = "visit d E ?cid (l + 1)"
    let ?g = "\<lambda>acc (ck, cv). acc @ preorder E cv ck (Some ?cid) (l + 1) (?c + 1 + length acc)"
    from True have pre: "preorder E v k p l ?c = new_node E v k p l ?c # foldl ?g [] (children_of v)"
      by (subst preorder.simps) simp
    define I where "I ys r \<longleftrightarrow>
        (\<exists>ws. map core (nodes (snd r)) = map core (nodes ?st1) @ ws \<and>
              nodeId (snd r) = ?c + 1 + length ws \<and>
              prefix ws (foldl ?g [] ys) \<and>
              (fst r = Normal \<longrightarrow> ws = foldl ?g [] ys))"
      for ys and r :: "completion \<times> 'n closure"
    have "I (children_of v) (foldl ?f (Normal, ?st1) (children_of v))"
    proof (rule foldl_prefix_induct)
      show "I [] (Normal, ?st1)" by (simp add: I_def)
    next
      fix ys x zs r
      assume xs: "children_of v = ys @ x # zs" and Ir: "I ys r"
      from Ir obtain ws where a: "map core (nodes (snd r)) = map core (nodes ?st1) @ ws"
        and b: "nodeId (snd r) = ?c + 1 + length ws"
        and pf: "prefix ws (foldl ?g [] ys)"
        and fin: "fst r = Normal \<longrightarrow> ws = foldl ?g [] ys"
        unfolding I_def by blast
      show "I (ys @ [x]) (?f r x)"
      proof (cases rule: visit_cases [where d = d and E = E and cid = ?cid and l = "l + 1" and r = r and x = x])
        case skip
        obtain ck cv where x: "x = (ck, cv)" by (cases x)
        have "prefix ws (foldl ?g [] (ys @ [x]))"
          using pf by (simp add: x prefix_prefix)
        with a b show ?thesis unfolding I_def skip by (intro exI [of _ ws]) simp
      next
        case (call ck cv)
        from xs call(1) have mem: "(ck, cv) \<in> set (children_of v)" by simp
        from fin call(2) have ws: "ws = foldl ?g [] ys" by simp
        let ?r' = "traverse (d - 1) E cv ck (Some ?cid) (l + 1) (snd r)"
        from step.IH [OF mem, of "d - 1" ck "Some ?cid" "l + 1" "snd r"]
        obtain us where u1: "map core (nodes (snd ?r')) = map core (nodes (snd r)) @ us"
          and u2: "nodeId (snd ?r') = nodeId (snd r) + length us"
          and u3: "prefix us (preorder E cv ck (Some ?cid) (l + 1) (nodeId (snd r)))"
          and u4: "fst ?r' = Normal \<longrightarrow> us = preorder E cv ck (Some ?cid) (l + 1) (nodeId (snd r))"
          by blast
        have ext0: "foldl ?g [] (ys @ [x]) =
            foldl ?g [] ys @
            preorder E cv ck (Some ?cid) (l + 1) (?c + 1 + length (foldl ?g [] ys))"
          by (simp add: call(1))
        have ext: "foldl ?g [] (ys @ [x]) =
            ws @ preorder E cv ck (Some ?cid) (l + 1) (nodeId (snd r))"
          unfolding ext0 b ws by (rule refl)
        have "map core (nodes (snd ?r')) = map core (nodes ?st1) @ (ws @ us)"
          unfolding u1 a by simp
        moreover have "nodeId (snd ?r') = ?c + 1 + length (ws @ us)"
          unfolding u2 b by simp
        moreover have "prefix (ws @ us) (foldl ?g [] (ys @ [x]))"
          unfolding ext using u3 by simp
        moreover have "fst ?r' = Normal \<longrightarrow> ws @ us = foldl ?g [] (ys @ [x])"
          unfolding ext using u4 by simp
        ultimately show ?thesis unfolding I_def call(4) by (intro exI [of _ "ws @ us"] conjI)
      qed
    qed
    then obtain ws where a: "map core (nodes (snd (traverse d E v k p l st))) = map core (nodes ?st1) @ ws"
        and b: "nodeId (snd (traverse d E v k p l st)) = ?c + 1 + length ws"
        and pf: "prefix ws (foldl ?g [] (children_of v))"
        and fin: "fst (traverse d E v k p l st) = Normal \<longrightarrow> ws = foldl ?g [] (children_of v)"
      unfolding I_def traverse_node [OF conjunct1 [OF True] conjunct2 [OF True]] by blast
    show ?thesis
      by (rule exI [of _ "new_node E v k p l ?c # ws"]) (use a b pf fin in \<open>simp add: pre emit_core\<close>)
  qed
qed

lemma build_preorder:
  "prefix (map core (nodes (build d E D))) (preorder E D (ascii ''root'') None 0 0)"
  "returns d E D \<Longrightarrow> map core (nodes (build d E D)) = preorder E D (ascii ''root'') None 0 0"
  using traverse_preorder [of d E D "ascii ''root''" None 0 init]
  by (auto simp: build_def returns_def init_def)

lemma build_unplaced: "\<forall>n\<in>set (nodes (build d E D)). node_x n = 0 \<and> node_y n = 0"
proof -
  have "\<forall>n\<in>set (nodes (build d E D)). node_x (core n) = 0 \<and> node_y (core n) = 0"
    by (rule build_all) simp
  then show ?thesis by simp
qed

lemma bare_build: "map bare (positionNodes (nodes (build d E D))) = map core (nodes (build d E D))"
proof -
  have "map bare (positionNodes (nodes (build d E D))) = map bare (nodes (build d E D))"
    by (rule positionNodes_map) (simp add: bare_def)
  also have "\<dots> = map core (nodes (build d E D))"
    using build_unplaced [of d E D] by (intro map_cong) (auto simp: bare_def core_def)
  finally show ?thesis .
qed

subsection \<open>A document nested no deeper than the stack allows is traversed to the end\<close>

lemma depth_child: "(ck, cv) \<in> set (children_of v) \<Longrightarrow> depth cv < depth v"
proof -
  assume m: "(ck, cv) \<in> set (children_of v)"
  then have hc: "hasChildren v" by (auto simp: hasChildren_children_of)
  have "x \<in> set xs \<Longrightarrow> x \<le> foldr max xs (0::nat)" for x xs
    by (induction xs) auto
  from this [of "depth cv" "map (\<lambda>(ck, cv). depth cv) (children_of v)"] m
  have "depth cv \<le> foldr max (map (\<lambda>(ck, cv). depth cv) (children_of v)) 0"
    by force
  with hc show ?thesis by (subst (2) depth.simps) simp
qed

lemma traverse_returns:
  fixes st :: "'n closure"
  shows "depth v \<le> d \<Longrightarrow> fst (traverse d E v k p l st) = Normal"
proof (induction d v k p l st rule: traverse_induct)
  case (step d v k p l st)
  show ?case
  proof (cases "hasChildren v \<and> node_name (nodeId st) \<in> E")
    case False
    then show ?thesis by (simp add: traverse_leaf)
  next
    case True
    have "fst (foldl (visit d E (node_name (nodeId st)) (l + 1)) (Normal, emit E v k p l st)
                 (children_of v)) = Normal"
    proof (rule foldl_invariant [where I = "\<lambda>r::completion \<times> 'n closure. fst r = Normal"])
      fix x and r :: "completion \<times> 'n closure"
      assume x: "x \<in> set (children_of v)" and r: "fst r = Normal"
      obtain ck cv where xe: "x = (ck, cv)" by (cases x)
      obtain s where re: "r = (Normal, s)" using r by (cases r) simp
      from x xe have "depth cv < depth v" by (intro depth_child [of ck]) simp
      with step.prems have d0: "d \<noteq> 0" and le: "depth cv \<le> d - 1" by simp_all
      from x xe have mem: "(ck, cv) \<in> set (children_of v)" by simp
      have "fst (traverse (d - 1) E cv ck (Some (node_name (nodeId st))) (l + 1) s) = Normal"
        using mem le by (rule step.IH)
      with d0 show "fst (visit d E (node_name (nodeId st)) (l + 1) r x) = Normal"
        by (simp add: visit_def re xe)
    qed simp
    with True show ?thesis by (simp add: traverse_node)
  qed
qed

lemma returns_depth: "depth D \<le> d \<Longrightarrow> returns d E D"
  unfolding returns_def by (rule traverse_returns)

subsection \<open>A document nested deeper than the stack allows is cut short\<close>

text \<open>
  Whatever room the stack has, the traversal of the document \<open>nest d\<close> with all its
  nodes expanded throws at the innermost array, which stays in the graph without a child.
\<close>

lemma push_child_Nil_iff [simp]: "push_child q c ns = [] \<longleftrightarrow> ns = []"
  by (cases ns) auto

lemma push_child_last:
  "node_id n \<noteq> q \<Longrightarrow> last (push_child q c (ns @ [n])) = n"
  by (induction ns) auto

lemma emit_last:
  "p \<noteq> Some (node_name (nodeId st)) \<Longrightarrow>
   last (nodes (emit E v k p l st)) = new_node E v k p l (nodeId st)"
  by (cases p) (auto simp: emit_nodes push_child_last)

lemma children_of_nest_0: "children_of (nest 0 :: 'n json) = [(index_key 0, JNull)]"
  by (simp add: children_of_def enumerate_eq_zip)

lemma children_of_nest_Suc: "children_of (nest (Suc n) :: 'n json) = [(index_key 0, nest n)]"
  by (simp add: children_of_def enumerate_eq_zip)

lemma hasChildren_nest [simp]: "hasChildren (nest n)"
  by (cases n) (simp_all add: hasChildren_def)

lemma traverse_nest:
  fixes st :: "'n closure"
  shows "p \<noteq> Some (node_name (nodeId st)) \<Longrightarrow> \<forall>i\<le>d. node_name (nodeId st + i) \<in> E \<Longrightarrow>
     fst (traverse d E (nest d) k p l st) = RangeError \<and>
     nodes (snd (traverse d E (nest d) k p l st)) \<noteq> [] \<and>
     node_id (last (nodes (snd (traverse d E (nest d) k p l st)))) = node_name (nodeId st + d) \<and>
     node_value (last (nodes (snd (traverse d E (nest d) k p l st)))) = JArray [JNull] \<and>
     node_children (last (nodes (snd (traverse d E (nest d) k p l st)))) = []"
proof (induction d arbitrary: k p l st)
  case 0
  then have e: "node_name (nodeId st) \<in> E" by simp
  have "traverse 0 E (nest 0) k p l st = (RangeError, emit E (nest 0) k p l st)"
    by (simp add: traverse_node [OF hasChildren_nest e] children_of_nest_0 visit_def
          del: nest.simps)
  moreover have "nodes (emit E (nest 0) k p l st) \<noteq> []"
    using emit_length [of E "nest 0" k p l st] by (metis length_0_conv add_is_0 zero_neq_one)
  ultimately show ?case using emit_last [OF 0(1), of E "nest 0" k l] by simp
next
  case (Suc d)
  let ?st1 = "emit E (nest (Suc d)) k p l st"
  let ?cid = "node_name (nodeId st)"
  from Suc.prems(2) have e: "?cid \<in> E" by (metis add_0_right le0)
  have eq: "traverse (Suc d) E (nest (Suc d)) k p l st =
        traverse d E (nest d) (index_key 0) (Some ?cid) (l + 1) ?st1"
    by (simp add: traverse_node [OF hasChildren_nest e] children_of_nest_Suc visit_def
          del: nest.simps)
  have a: "Some ?cid \<noteq> Some (node_name (nodeId ?st1))" by simp
  have b: "\<forall>i\<le>d. node_name (nodeId ?st1 + i) \<in> E"
  proof (intro allI impI)
    fix i assume "i \<le> d"
    then have "Suc i \<le> Suc d" by simp
    with Suc.prems(2) have "node_name (nodeId st + Suc i) \<in> E" by blast
    then show "node_name (nodeId ?st1 + i) \<in> E" by simp
  qed
  from Suc.IH [OF a b, of "index_key 0" "l + 1"] show ?case unfolding eq by simp
qed

lemma deep_document:
  fixes JSON_parse :: "js_string \<Rightarrow> 'n json option"
  assumes "truthy (trim jsonInput)" and "JSON_parse jsonInput = Some (nest d)"
    and "\<forall>i\<le>d. node_name i \<in> E"
  shows "\<not> returns d E (nest d :: 'n json)"
    and "\<exists>n\<in>set (fst (createGraph d JSON_parse E jsonInput)).
           node_id n = node_name d \<and> node_value n = JArray [JNull] \<and>
           hasChildren (node_value n) \<and> node_id n \<in> E \<and> node_children n = []"
proof -
  let ?r = "traverse d E (nest d :: 'n json) (ascii ''root'') None 0 init"
  have "None \<noteq> Some (node_name (nodeId (init :: 'n closure)))" by simp
  moreover from assms(3) have "\<forall>i\<le>d. node_name (nodeId (init :: 'n closure) + i) \<in> E"
    by (simp add: init_def)
  ultimately have t: "fst ?r = RangeError \<and> nodes (snd ?r) \<noteq> [] \<and>
      node_id (last (nodes (snd ?r))) = node_name (nodeId (init :: 'n closure) + d) \<and>
      node_value (last (nodes (snd ?r))) = JArray [JNull] \<and>
      node_children (last (nodes (snd ?r))) = []"
    by (rule traverse_nest)
  then show "\<not> returns d E (nest d :: 'n json)" by (simp add: returns_def)
  let ?ns = "nodes (build d E (nest d :: 'n json))"
  from t have ne: "?ns \<noteq> []" and i: "node_id (last ?ns) = node_name d"
    and v: "node_value (last ?ns) = JArray [JNull]" and ch: "node_children (last ?ns) = []"
    by (simp_all add: build_def init_def)
  let ?i = "length ?ns - 1"
  from ne have lt: "?i < length ?ns" by simp
  from ne have la: "last ?ns = ?ns ! ?i" by (rule last_conv_nth)
  from positionNodes_nth [OF lt] obtain y where
    pn: "positionNodes ?ns ! ?i = (?ns ! ?i)\<lparr>node_x := node_level (?ns ! ?i) * 300 + 50, node_y := y\<rparr>"
    by blast
  let ?n = "positionNodes ?ns ! ?i"
  from lt have "?n \<in> set (positionNodes ?ns)" by simp
  then have mem: "?n \<in> set (fst (createGraph d JSON_parse E jsonInput))"
    using assms(1,2) by (simp add: createGraph_valid)
  from pn i v ch la have f: "node_id ?n = node_name d" "node_value ?n = JArray [JNull]"
    "node_children ?n = []" by simp_all
  moreover from f(1) assms(3) have "node_id ?n \<in> E" by simp
  moreover from f(2) have "hasChildren (node_value ?n)" by (simp add: hasChildren_def)
  ultimately show "\<exists>n\<in>set (fst (createGraph d JSON_parse E jsonInput)).
           node_id n = node_name d \<and> node_value n = JArray [JNull] \<and>
           hasChildren (node_value n) \<and> node_id n \<in> E \<and> node_children n = []"
    using mem by blast
qed

subsection \<open>Child lists of the built graph\<close>

lemma createGraph_children:
  fixes JSON_parse :: "js_string \<Rightarrow> 'n json option"
  assumes n: "n \<in> set (fst (createGraph d JSON_parse E jsonInput))"
  shows "node_children n = kids (fst (createGraph d JSON_parse E jsonInput)) (node_id n)"
    and "node_children n \<noteq> [] \<Longrightarrow> hasChildren (node_value n) \<and> node_id n \<in> E"
    and "truthy (trim jsonInput) \<Longrightarrow> JSON_parse jsonInput = Some D \<Longrightarrow> returns d E D \<Longrightarrow>
         hasChildren (node_value n) \<and> node_id n \<in> E \<Longrightarrow> node_children n \<noteq> []"
proof -
  have "node_children n = kids (fst (createGraph d JSON_parse E jsonInput)) (node_id n) \<and>
        (node_children n \<noteq> [] \<longrightarrow> hasChildren (node_value n) \<and> node_id n \<in> E) \<and>
        (\<forall>D. truthy (trim jsonInput) \<and> JSON_parse jsonInput = Some D \<and> returns d E D \<and>
             hasChildren (node_value n) \<and> node_id n \<in> E \<longrightarrow> node_children n \<noteq> [])"
  proof (cases d JSON_parse E jsonInput rule: createGraph_cases)
    case empty
    with n show ?thesis by simp
  next
    case (valid D)
    from n valid(3) have "n \<in> set (positionNodes (nodes (build d E D)))" by simp
    then obtain m x y where m: "m \<in> set (nodes (build d E D))" and nm: "n = m\<lparr>node_x := x, node_y := y\<rparr>"
      by (rule positionNodes_mem)
    from nm have f: "node_children n = node_children m" "node_value n = node_value m"
      "node_id n = node_id m" by simp_all
    have k: "kids (fst (createGraph d JSON_parse E jsonInput)) (node_id n) =
          kids (nodes (build d E D)) (node_id m)"
      by (simp add: valid(3) kids_positionNodes f)
    have c1: "node_children n =
        kids (fst (createGraph d JSON_parse E jsonInput)) (node_id n)"
      unfolding k f(1) by (rule build_children(1) [OF m])
    from build_children(2) [OF m] have c2: "node_children n \<noteq> [] \<longrightarrow>
        hasChildren (node_value n) \<and> node_id n \<in> E"
      by (simp only: f) blast
    have c3: "node_children n \<noteq> []"
      if "truthy (trim jsonInput) \<and> JSON_parse jsonInput = Some D' \<and> returns d E D' \<and>
             hasChildren (node_value n) \<and> node_id n \<in> E" for D'
    proof -
      from that valid(2) have "D' = D" by simp
      with that have "returns d E D" and "hasChildren (node_value m) \<and> node_id m \<in> E"
        by (simp_all add: f)
      with build_children(3) [OF m] show ?thesis by (simp add: f)
    qed
    from c1 c2 c3 show ?thesis by blast
  qed
  then show "node_children n = kids (fst (createGraph d JSON_parse E jsonInput)) (node_id n)"
    and "node_children n \<noteq> [] \<Longrightarrow> hasChildren (node_value n) \<and> node_id n \<in> E"
    and "truthy (trim jsonInput) \<Longrightarrow> JSON_parse jsonInput = Some D \<Longrightarrow> returns d E D \<Longrightarrow>
         hasChildren (node_value n) \<and> node_id n \<in> E \<Longrightarrow> node_children n \<noteq> []"
    by blast+
qed

subsection \<open>The layout pass, on its result\<close>

lemma positionNodes_spec:
  fixes ns :: "'n GraphNode list"
  shows "length (positionNodes ns) = length ns \<and>
    (\<forall>i<length ns. positionNodes ns ! i =
        (ns ! i)\<lparr>node_x := node_level (ns ! i) * 300 + 50, node_y := node_y (positionNodes ns ! i)\<rparr>) \<and>
    (\<forall>l j. Suc j < length (filter (\<lambda>n. node_level n = l) (positionNodes ns)) \<longrightarrow>
       node_y (filter (\<lambda>n. node_level n = l) (positionNodes ns) ! Suc j) =
       node_y (filter (\<lambda>n. node_level n = l) (positionNodes ns) ! j) +
       node_height (filter (\<lambda>n. node_level n = l) (positionNodes ns) ! j) + 30)"
proof (intro conjI allI impI)
  show "length (positionNodes ns) = length ns" by simp
next
  fix i
  assume i: "i < length ns"
  from positionNodes_nth [OF i] obtain y where
    eq: "positionNodes ns ! i = (ns ! i)\<lparr>node_x := node_level (ns ! i) * 300 + 50, node_y := y\<rparr>" by blast
  then have "node_y (positionNodes ns ! i) = y" by simp
  with eq show "positionNodes ns ! i =
        (ns ! i)\<lparr>node_x := node_level (ns ! i) * 300 + 50, node_y := node_y (positionNodes ns ! i)\<rparr>"
    by simp
next
  fix l j
  let ?g = "level_members ns (length ns) l"
  assume "Suc j < length (filter (\<lambda>n. node_level n = l) (positionNodes ns))"
  then have j: "Suc j < length ?g" by (simp add: positionNodes_members)
  then have "?g ! j \<in> set ?g" by simp
  then have lt: "?g ! j < length ns" by (simp add: level_members_def)
  have h: "node_height (positionNodes ns ! (?g ! j)) = node_height (ns ! (?g ! j))"
    using lt by (simp add: positionNodes_field [of node_height])
  from positionNodes_advance [OF j] h j
  show "node_y (filter (\<lambda>n. node_level n = l) (positionNodes ns) ! Suc j) =
       node_y (filter (\<lambda>n. node_level n = l) (positionNodes ns) ! j) +
       node_height (filter (\<lambda>n. node_level n = l) (positionNodes ns) ! j) + 30"
    by (simp add: positionNodes_members)
qed

section \<open>Properties of the graph\<close>

text \<open>
  C1. Whenever the built node list is not empty it has exactly one node more than there
  are edges: the first node, the root, has no incoming edge and every other node has
  exactly one; the edges are, in order, one edge from its parent to each node after the
  root. This holds of the graph of a traversal that was cut short as well.
\<close>

theorem createGraph_tree:
  "fst (createGraph stack JSON_parse E jsonInput) \<noteq> [] \<longrightarrow>
     length (fst (createGraph stack JSON_parse E jsonInput)) =
       length (snd (createGraph stack JSON_parse E jsonInput)) + 1 \<and>
     (\<forall>i<length (fst (createGraph stack JSON_parse E jsonInput)).
        length (filter (\<lambda>e. edge_to e = node_id (fst (createGraph stack JSON_parse E jsonInput) ! i))
                       (snd (createGraph stack JSON_parse E jsonInput))) =
        (if i = 0 then 0 else 1)) \<and>
     snd (createGraph stack JSON_parse E jsonInput) =
       map (\<lambda>n. \<lparr>edge_from = the (node_parent n), edge_to = node_id n,
                  edge_fromSide = SRight, edge_toSide = SLeft\<rparr>)
           (tl (fst (createGraph stack JSON_parse E jsonInput)))"
proof (cases stack JSON_parse E jsonInput rule: createGraph_cases)
  case empty
  then show ?thesis by simp
next
  case (valid D)
  obtain r rest where nb: "nodes (build stack E D) = r # rest"
    and ids: "map node_id rest = map node_name [1..<Suc (length rest)]"
    and es: "edges (build stack E D) = map (\<lambda>n. new_edge (the (node_parent n)) (node_id n)) rest"
    by (rule build_shape)
  let ?ns = "fst (createGraph stack JSON_parse E jsonInput)"
  let ?es = "snd (createGraph stack JSON_parse E jsonInput)"
  have ns: "?ns = positionNodes (r # rest)" and es': "?es = map (\<lambda>n. new_edge (the (node_parent n)) (node_id n)) rest"
    using valid(3) nb es by simp_all
  have len: "length ?ns = length ?es + 1" by (simp add: ns es')
  have nid: "map node_id ?ns = map node_name [0..<length ?ns]"
    using build_ids [of stack E D] positionNodes_map [of node_id "r # rest"] by (simp add: ns nb)
  have cnt: "length (filter (\<lambda>e. edge_to e = node_id (?ns ! i)) ?es) = (if i = 0 then 0 else 1)"
    if i: "i < length ?ns" for i
  proof -
    from nid i have idi: "node_id (?ns ! i) = node_name i"
      by (metis add_0 length_map nth_map nth_upt)
    have "length (filter (\<lambda>e. edge_to e = node_name i) ?es) =
          length (filter (\<lambda>x. x = node_name i) (map node_id rest))"
      by (simp add: es' filter_map comp_def new_edge_def)
    also have "\<dots> = length (filter (\<lambda>j. j = i) [1..<Suc (length rest)])"
      unfolding ids by (simp add: filter_map comp_def del: upt_Suc)
    also have "\<dots> = (if i = 0 then 0 else 1)"
      unfolding count_upt using i by (auto simp: ns)
    finally show ?thesis by (simp add: idi)
  qed
  then have cnt': "\<forall>i<length ?ns. length (filter (\<lambda>e. edge_to e = node_id (?ns ! i)) ?es) =
      (if i = 0 then 0 else 1)" by (intro allI impI)
  have "map (\<lambda>n. new_edge (the (node_parent n)) (node_id n)) (tl ?ns) =
        tl (map (\<lambda>n. new_edge (the (node_parent n)) (node_id n)) (positionNodes (r # rest)))"
    by (simp add: ns map_tl)
  also have "\<dots> = map (\<lambda>n. new_edge (the (node_parent n)) (node_id n)) rest"
    by (subst positionNodes_map) simp_all
  finally have "?es = map (\<lambda>n. new_edge (the (node_parent n)) (node_id n)) (tl ?ns)"
    by (simp add: es')
  then have edg: "?es = map (\<lambda>n. \<lparr>edge_from = the (node_parent n), edge_to = node_id n,
                  edge_fromSide = SRight, edge_toSide = SLeft\<rparr>) (tl ?ns)"
    by (simp add: new_edge_def)
  from len cnt' edg show ?thesis by (intro impI conjI)
qed

theorem createGraph_tree_witness:
  "fst (createGraph 100 sample_parse {ascii ''node-0''} (ascii ''[null]'')) \<noteq> [] \<and>
   (1::nat) < length (fst (createGraph 100 sample_parse {ascii ''node-0''} (ascii ''[null]''))) \<and>
   length (fst (createGraph 100 sample_parse {ascii ''node-0''} (ascii ''[null]''))) =
     length (snd (createGraph 100 sample_parse {ascii ''node-0''} (ascii ''[null]''))) + 1 \<and>
   length (filter (\<lambda>e. edge_to e =
                node_id (fst (createGraph 100 sample_parse {ascii ''node-0''} (ascii ''[null]'')) ! 1))
             (snd (createGraph 100 sample_parse {ascii ''node-0''} (ascii ''[null]'')))) = 1"
proof -
  have h1: "fst (createGraph 100 sample_parse {ascii ''node-0''} (ascii ''[null]'')) \<noteq> []"
    by code_simp
  have h2: "(1::nat) < length (fst (createGraph 100 sample_parse {ascii ''node-0''} (ascii ''[null]'')))"
    by code_simp
  note t = createGraph_tree [of 100 sample_parse "{ascii ''node-0''}" "ascii ''[null]''", THEN mp, OF h1]
  note a = t [THEN conjunct1]
  note b = t [THEN conjunct2, THEN conjunct1]
  from b [rule_format, OF h2] have c: "length (filter (\<lambda>e. edge_to e =
                node_id (fst (createGraph 100 sample_parse {ascii ''node-0''} (ascii ''[null]'')) ! 1))
             (snd (createGraph 100 sample_parse {ascii ''node-0''} (ascii ''[null]'')))) = 1"
    by (simp only: one_neq_zero if_False)
  from h1 h2 a c show ?thesis by (intro conjI)
qed

text \<open>
  C2 fails on the code. With room on the stack for one nested call of \<^verbatim>\<open>traverse\<close>,
  the document \<open>[[null]]\<close> and both \<open>node-0\<close> and \<open>node-1\<close> expanded, the call for
  the innermost \<open>null\<close> throws; the \<^verbatim>\<open>catch\<close> swallows the error, and the graph keeps
  \<open>node-1\<close>, whose value is the non-empty array \<open>[null]\<close> and whose id is in the
  expansion set, with an empty \<open>children\<close> list. The same happens with any room on the
  stack for a document nested that much deeper (lemma \<open>deep_document\<close>); when the
  traversal returns, the claim holds (lemma \<open>createGraph_children\<close>).
\<close>

theorem children_lost:
  "length (fst (createGraph 1 sample_parse {ascii ''node-0'', ascii ''node-1''} (ascii ''[[null]]''))) = 2 \<and>
   node_id (fst (createGraph 1 sample_parse {ascii ''node-0'', ascii ''node-1''} (ascii ''[[null]]'')) ! 1)
     = ascii ''node-1'' \<and>
   node_id (fst (createGraph 1 sample_parse {ascii ''node-0'', ascii ''node-1''} (ascii ''[[null]]'')) ! 1)
     \<in> {ascii ''node-0'', ascii ''node-1''} \<and>
   node_value (fst (createGraph 1 sample_parse {ascii ''node-0'', ascii ''node-1''} (ascii ''[[null]]'')) ! 1)
     = JArray [JNull] \<and>
   node_children (fst (createGraph 1 sample_parse {ascii ''node-0'', ascii ''node-1''} (ascii ''[[null]]'')) ! 1)
     = []"
  by code_simp

text \<open>
  C3, as the code has it. When \<open>L\<close> is the id of a node of the built graph whose value
  is a primitive or an empty container, the graph built with \<open>L\<close> added to the
  expansion set is the graph built with \<open>L\<close> removed, except that the node \<open>L\<close> has
  its \<open>isExpanded\<close> flag set: all other fields of all nodes and all edges are equal.
\<close>

theorem toggle_leaf:
  assumes "\<exists>n\<in>set (fst (createGraph stack JSON_parse E jsonInput)).
             node_id n = L \<and> \<not> hasChildren (node_value n)"
  shows "fst (createGraph stack JSON_parse (insert L E) jsonInput) =
           map (\<lambda>n. if node_id n = L then n\<lparr>node_isExpanded := True\<rparr> else n)
               (fst (createGraph stack JSON_parse (E - {L}) jsonInput)) \<and>
         snd (createGraph stack JSON_parse (insert L E) jsonInput) =
           snd (createGraph stack JSON_parse (E - {L}) jsonInput)"
proof (cases stack JSON_parse E jsonInput rule: createGraph_cases)
  case empty
  with assms show ?thesis by simp
next
  case (valid D)
  have cg: "createGraph stack JSON_parse E' jsonInput = (positionNodes (nodes (build stack E' D)), edges (build stack E' D))"
    for E' using valid(1,2) by (rule createGraph_valid)
  have ids: "distinct (map node_id (nodes (build stack E D)))"
    using build_ids_ok by (rule ids_ok_distinct)
  from assms obtain n where n: "n \<in> set (positionNodes (nodes (build stack E D)))"
    and nl: "node_id n = L" and leaf: "\<not> hasChildren (node_value n)"
    by (auto simp: cg)
  have "leafy L (positionNodes (nodes (build stack E D)))"
    unfolding leafy_def
  proof (intro ballI impI)
    fix m assume m: "m \<in> set (positionNodes (nodes (build stack E D)))" and ml: "node_id m = L"
    have "distinct (map node_id (positionNodes (nodes (build stack E D))))"
      using ids by (subst positionNodes_map) simp_all
    then have "inj_on node_id (set (positionNodes (nodes (build stack E D))))"
      by (simp add: distinct_map)
    from this _ m n have "m = n" by (rule inj_onD) (simp add: ml nl)
    with leaf show "\<not> hasChildren (node_value m)" by simp
  qed
  then have lf: "leafy L (nodes (build stack E D))" by (simp add: leafy_positionNodes)
  have "E = insert L E \<or> E = E - {L}" by auto
  with lf have "leafy L (nodes (build stack (insert L E) D)) \<or> leafy L (nodes (build stack (E - {L}) D))"
    by metis
  then have "rel L (build stack (insert L E) D) (build stack (E - {L}) D)" by (rule build_rel)
  then have e: "edges (build stack (insert L E) D) = edges (build stack (E - {L}) D)"
    and ns: "nodes (build stack (insert L E) D) = map (setExp L True) (nodes (build stack (E - {L}) D))"
    by (simp_all add: rel_def)
  have "positionNodes (nodes (build stack (insert L E) D)) =
        map (setExp L True) (positionNodes (nodes (build stack (E - {L}) D)))"
    unfolding ns by (rule positionNodes_commute) (simp_all add: setExp_update)
  with e show ?thesis by (simp add: cg setExp_def [abs_def])
qed

theorem toggle_leaf_witness:
  "(\<exists>n\<in>set (fst (createGraph 100 sample_parse {ascii ''node-0''} (ascii ''[null]''))).
      node_id n = ascii ''node-1'' \<and> \<not> hasChildren (node_value n)) \<and>
   fst (createGraph 100 sample_parse (insert (ascii ''node-1'') {ascii ''node-0''}) (ascii ''[null]'')) =
     map (\<lambda>n. if node_id n = ascii ''node-1'' then n\<lparr>node_isExpanded := True\<rparr> else n)
         (fst (createGraph 100 sample_parse ({ascii ''node-0''} - {ascii ''node-1''}) (ascii ''[null]''))) \<and>
   snd (createGraph 100 sample_parse (insert (ascii ''node-1'') {ascii ''node-0''}) (ascii ''[null]'')) =
     snd (createGraph 100 sample_parse ({ascii ''node-0''} - {ascii ''node-1''}) (ascii ''[null]''))"
proof -
  let ?g = "fst (createGraph 100 sample_parse {ascii ''node-0''} (ascii ''[null]''))"
  have "1 < length ?g" by code_simp
  then have "?g ! 1 \<in> set ?g" by (rule nth_mem)
  moreover have "node_id (?g ! 1) = ascii ''node-1''" by code_simp
  moreover have "\<not> hasChildren (node_value (?g ! 1))" by code_simp
  ultimately have h: "\<exists>n\<in>set ?g. node_id n = ascii ''node-1'' \<and> \<not> hasChildren (node_value n)"
    by blast
  from toggle_leaf [OF h] h show ?thesis by (intro conjI) (elim conjE, assumption)+
qed

text \<open>
  C3 as stated fails: for the document \<open>[null]\<close> with the root expanded, the node
  \<open>node-1\<close> holds the primitive \<open>null\<close> and has no children, yet the graphs built
  with and without \<open>node-1\<close> in the expansion set differ (in the \<open>isExpanded\<close> flag
  of that node).
\<close>

theorem toggle_leaf_counterexample:
  "(1::nat) < length (fst (createGraph 100 sample_parse {ascii ''node-0''} (ascii ''[null]''))) \<and>
   node_id (fst (createGraph 100 sample_parse {ascii ''node-0''} (ascii ''[null]'')) ! 1) = ascii ''node-1'' \<and>
   node_value (fst (createGraph 100 sample_parse {ascii ''node-0''} (ascii ''[null]'')) ! 1) = JNull \<and>
   node_children (fst (createGraph 100 sample_parse {ascii ''node-0''} (ascii ''[null]'')) ! 1) = [] \<and>
   createGraph 100 sample_parse ({ascii ''node-0''} \<union> {ascii ''node-1''}) (ascii ''[null]'') \<noteq>
   createGraph 100 sample_parse ({ascii ''node-0''} - {ascii ''node-1''}) (ascii ''[null]'')"
  by code_simp

text \<open>
  C4. With an empty expansion set a document that parses yields exactly one node, the
  root \<open>node-0\<close>, collapsed and of base height at the first layout position, and no
  edge.
\<close>

theorem collapse_all:
  "truthy (trim jsonInput) \<Longrightarrow> JSON_parse jsonInput = Some D \<Longrightarrow>
   createGraph stack JSON_parse {} jsonInput =
     ([\<lparr>node_id = ascii ''node-0'', node_key = ascii ''root'', node_value = D,
        node_type = typeOf D, node_x = 50, node_y = 50, node_width = 220, node_height = 100,
        node_children = [], node_parent = None, node_level = 0, node_isExpanded = False\<rparr>], [])"
proof -
  assume a: "truthy (trim jsonInput)" "JSON_parse jsonInput = Some D"
  have "build stack {} D = emit {} D (ascii ''root'') None 0 init"
    unfolding build_def by (simp add: traverse_leaf)
  then have b: "build stack {} D = \<lparr>nodes = [new_node {} D (ascii ''root'') None 0 0], edges = [], nodeId = 1\<rparr>"
    by (simp add: emit_def init_def new_node_def Let_def)
  have "positionNodes [new_node {} D (ascii ''root'') None 0 0] =
        [(new_node {} D (ascii ''root'') None 0 0)\<lparr>node_x := 50, node_y := 50\<rparr>]"
    by (simp add: positionNodes_def levelGroups_def place_def)
  with a b show ?thesis
    by (simp add: createGraph_valid new_node_def extraHeight_def node_name_0)
qed

theorem collapse_all_witness:
  "truthy (trim (ascii ''[null]'')) \<and>
   sample_parse (ascii ''[null]'') = Some (JArray [JNull]) \<and>
   createGraph 100 sample_parse {} (ascii ''[null]'') =
     ([\<lparr>node_id = ascii ''node-0'', node_key = ascii ''root'', node_value = JArray [JNull],
        node_type = typeOf (JArray [JNull :: unit json]), node_x = 50, node_y = 50,
        node_width = 220, node_height = 100,
        node_children = [], node_parent = None, node_level = 0, node_isExpanded = False\<rparr>], [])"
proof -
  have h1: "truthy (trim (ascii ''[null]''))" by code_simp
  have h2: "sample_parse (ascii ''[null]'') = Some (JArray [JNull])" by code_simp
  from collapse_all [of "ascii ''[null]''" sample_parse "JArray [JNull]" 100, OF h1 h2] h1 h2
  show ?thesis by (intro conjI)
qed

text \<open>
  C5. Every node of the built graph has \<open>x = level * 300 + 50\<close>, and among the nodes
  of one level, taken in the order of the node list (the traversal order), each next node
  lies \<open>height + 30\<close> below the previous one.
\<close>

theorem layout_positions:
  "(\<forall>n\<in>set (fst (createGraph stack JSON_parse E jsonInput)). node_x n = node_level n * 300 + 50) \<and>
   (\<forall>l j. Suc j < length (filter (\<lambda>n. node_level n = l) (fst (createGraph stack JSON_parse E jsonInput))) \<longrightarrow>
      node_y (filter (\<lambda>n. node_level n = l) (fst (createGraph stack JSON_parse E jsonInput)) ! Suc j) =
      node_y (filter (\<lambda>n. node_level n = l) (fst (createGraph stack JSON_parse E jsonInput)) ! j) +
      node_height (filter (\<lambda>n. node_level n = l) (fst (createGraph stack JSON_parse E jsonInput)) ! j) + 30)"
proof -
  obtain ns where g: "fst (createGraph stack JSON_parse E jsonInput) = positionNodes ns"
  proof (cases stack JSON_parse E jsonInput rule: createGraph_cases)
    case empty
    then have "fst (createGraph stack JSON_parse E jsonInput) = positionNodes []" by simp
    then show ?thesis by (rule that)
  next
    case (valid D)
    then have "fst (createGraph stack JSON_parse E jsonInput) = positionNodes (nodes (build stack E D))" by simp
    then show ?thesis by (rule that)
  qed
  have x: "node_x n = node_level n * 300 + 50" if "n \<in> set (positionNodes ns)" for n
  proof -
    from that obtain i where i: "i < length ns" and n: "n = positionNodes ns ! i"
      by (auto simp: in_set_conv_nth)
    from positionNodes_nth [OF i] obtain y where
      "positionNodes ns ! i = (ns ! i)\<lparr>node_x := node_level (ns ! i) * 300 + 50, node_y := y\<rparr>"
      by blast
    with n show ?thesis by simp
  qed
  from positionNodes_spec [of ns] x show ?thesis unfolding g by blast
qed

theorem layout_positions_witness:
  "fst (createGraph 100 sample_parse {ascii ''node-0''} (ascii ''[null,null]'')) ! 2
     \<in> set (fst (createGraph 100 sample_parse {ascii ''node-0''} (ascii ''[null,null]''))) \<and>
   node_x (fst (createGraph 100 sample_parse {ascii ''node-0''} (ascii ''[null,null]'')) ! 2) = 350 \<and>
   Suc 0 < length (filter (\<lambda>n. node_level n = 1)
                     (fst (createGraph 100 sample_parse {ascii ''node-0''} (ascii ''[null,null]'')))) \<and>
   node_y (filter (\<lambda>n. node_level n = 1)
             (fst (createGraph 100 sample_parse {ascii ''node-0''} (ascii ''[null,null]''))) ! Suc 0) =
   node_y (filter (\<lambda>n. node_level n = 1)
             (fst (createGraph 100 sample_parse {ascii ''node-0''} (ascii ''[null,null]''))) ! 0) +
   node_height (filter (\<lambda>n. node_level n = 1)
             (fst (createGraph 100 sample_parse {ascii ''node-0''} (ascii ''[null,null]''))) ! 0) + 30"
proof -
  let ?g = "fst (createGraph 100 sample_parse {ascii ''node-0''} (ascii ''[null,null]''))"
  have "2 < length ?g" by code_simp
  then have h1: "?g ! 2 \<in> set ?g" by (rule nth_mem)
  have lv: "node_level (?g ! 2) = 1" by code_simp
  have h2: "Suc 0 < length (filter (\<lambda>n. node_level n = 1) ?g)" by code_simp
  note L = layout_positions [of 100 sample_parse "{ascii ''node-0''}" "ascii ''[null,null]''"]
  from L [THEN conjunct1, rule_format, OF h1] lv have x: "node_x (?g ! 2) = 350" by simp
  note y = L [THEN conjunct2, rule_format, OF h2]
  from h1 x h2 y show ?thesis by (intro conjI)
qed

text \<open>
  C6. Every node of the built graph has the base height 100, plus, exactly when it is
  expanded and has children, \<open>min (childCount * 25) 150\<close>, where \<open>childCount\<close> is the
  number of entries of the object or of elements of the array.
\<close>

theorem node_heights:
  "\<forall>n\<in>set (fst (createGraph stack JSON_parse E jsonInput)).
     node_height n =
       100 + (if node_isExpanded n \<and> hasChildren (node_value n)
              then min (childCount (node_value n) * 25) 150 else 0)"
proof -
  let ?Q = "\<lambda>n. node_height n =
       100 + (if node_isExpanded n \<and> hasChildren (node_value n)
              then min (childCount (node_value n) * 25) 150 else 0)"
  have "\<forall>n\<in>set (fst (createGraph stack JSON_parse E jsonInput)). ?Q (core n)"
    by (rule createGraph_all) (auto simp: extraHeight_def preview_keys_count core_def)
  then show ?thesis by simp
qed

theorem node_heights_witness:
  "fst (createGraph 100 sample_parse {ascii ''node-0''} (ascii ''[null]'')) ! 0
     \<in> set (fst (createGraph 100 sample_parse {ascii ''node-0''} (ascii ''[null]''))) \<and>
   node_height (fst (createGraph 100 sample_parse {ascii ''node-0''} (ascii ''[null]'')) ! 0) = 125"
proof -
  let ?g = "fst (createGraph 100 sample_parse {ascii ''node-0''} (ascii ''[null]''))"
  have "0 < length ?g" by code_simp
  then have h: "?g ! 0 \<in> set ?g" by (rule nth_mem)
  have e: "node_isExpanded (?g ! 0)" by code_simp
  have v: "node_value (?g ! 0) = JArray [JNull]" by code_simp
  from node_heights [of 100 sample_parse "{ascii ''node-0''}" "ascii ''[null]''"] h
  have "node_height (?g ! 0) =
       100 + (if node_isExpanded (?g ! 0) \<and> hasChildren (node_value (?g ! 0))
              then min (childCount (node_value (?g ! 0)) * 25) 150 else 0)"
    by blast
  with e v have "node_height (?g ! 0) = 125"
    by (simp add: hasChildren_def childCount_def)
  with h show ?thesis by blast
qed

text \<open>
  C8. A blank input (empty or only white space) gives the empty graph and the overlay
  \<open>Enter JSON to visualize\<close>; a non-blank input that does not parse gives the empty graph
  and the overlay \<open>Invalid JSON format\<close>.
\<close>

theorem empty_and_invalid:
  "((\<forall>c\<in>set jsonInput. isWhiteSpace c) \<longrightarrow>
      createGraph stack JSON_parse E jsonInput = ([], []) \<and>
      overlay stack JSON_parse E jsonInput = Some ''Enter JSON to visualize'') \<and>
   ((\<exists>c\<in>set jsonInput. \<not> isWhiteSpace c) \<and> JSON_parse jsonInput = None \<longrightarrow>
      createGraph stack JSON_parse E jsonInput = ([], []) \<and>
      overlay stack JSON_parse E jsonInput = Some ''Invalid JSON format'')"
proof (rule conjI; rule impI)
  assume "\<forall>c\<in>set jsonInput. isWhiteSpace c"
  then have b: "\<not> truthy (trim jsonInput)" by (simp add: blank_iff)
  then show "createGraph stack JSON_parse E jsonInput = ([], []) \<and>
      overlay stack JSON_parse E jsonInput = Some ''Enter JSON to visualize''"
    by (simp add: overlay_def createGraph_invalid)
next
  assume "(\<exists>c\<in>set jsonInput. \<not> isWhiteSpace c) \<and> JSON_parse jsonInput = None"
  then have "truthy (trim jsonInput)" and "JSON_parse jsonInput = None"
    using blank_iff [of jsonInput] by auto
  then show "createGraph stack JSON_parse E jsonInput = ([], []) \<and>
      overlay stack JSON_parse E jsonInput = Some ''Invalid JSON format''"
    by (simp add: overlay_def createGraph_invalid)
qed

theorem empty_and_invalid_witness:
  "list_all isWhiteSpace (ascii '' '') \<and>
   createGraph 100 sample_parse {ascii ''node-0''} (ascii '' '') = ([], []) \<and>
   overlay 100 sample_parse {ascii ''node-0''} (ascii '' '') = Some ''Enter JSON to visualize'' \<and>
   \<not> list_all isWhiteSpace (ascii ''{invalid'') \<and> sample_parse (ascii ''{invalid'') = None \<and>
   createGraph 100 sample_parse {ascii ''node-0''} (ascii ''{invalid'') = ([], []) \<and>
   overlay 100 sample_parse {ascii ''node-0''} (ascii ''{invalid'') = Some ''Invalid JSON format''"
proof -
  have h1: "\<forall>c\<in>set (ascii '' ''). isWhiteSpace c" by code_simp
  have h2: "\<exists>c\<in>set (ascii ''{invalid''). \<not> isWhiteSpace c" by code_simp
  have h3: "sample_parse (ascii ''{invalid'') = None" by code_simp
  note A = empty_and_invalid [of "ascii '' ''" 100 sample_parse "{ascii ''node-0''}",
      THEN conjunct1, THEN mp, OF h1]
  note B = empty_and_invalid [of "ascii ''{invalid''" 100 sample_parse "{ascii ''node-0''}",
      THEN conjunct2, THEN mp, OF conjI [OF h2 h3]]
  have w1: "list_all isWhiteSpace (ascii '' '')" by code_simp
  have w2: "\<not> list_all isWhiteSpace (ascii ''{invalid'')" by code_simp
  from w1 w2 h3 A B show ?thesis by (intro conjI) (elim conjE, assumption)+
qed

text \<open>
  C9. Every node of the built graph has its \<open>isExpanded\<close> flag equal to the membership
  of its id in the expansion set, whatever its value.
\<close>

theorem expanded_mirrors:
  "\<forall>n\<in>set (fst (createGraph stack JSON_parse E jsonInput)). node_isExpanded n = (node_id n \<in> E)"
proof -
  have "\<forall>n\<in>set (fst (createGraph stack JSON_parse E jsonInput)).
          node_isExpanded (core n) = (node_id (core n) \<in> E)"
    by (rule createGraph_all [where Q = "\<lambda>n. node_isExpanded n = (node_id n \<in> E)"])
       (simp_all add: core_def)
  then show ?thesis by simp
qed

theorem expanded_mirrors_witness:
  "fst (createGraph 100 sample_parse {ascii ''node-0'', ascii ''node-1''} (ascii ''[null]'')) ! 1
     \<in> set (fst (createGraph 100 sample_parse {ascii ''node-0'', ascii ''node-1''} (ascii ''[null]''))) \<and>
   node_value (fst (createGraph 100 sample_parse {ascii ''node-0'', ascii ''node-1''} (ascii ''[null]'')) ! 1)
     = JNull \<and>
   node_isExpanded (fst (createGraph 100 sample_parse {ascii ''node-0'', ascii ''node-1''} (ascii ''[null]'')) ! 1)
     = (node_id (fst (createGraph 100 sample_parse {ascii ''node-0'', ascii ''node-1''} (ascii ''[null]'')) ! 1)
          \<in> {ascii ''node-0'', ascii ''node-1''})"
proof -
  let ?g = "fst (createGraph 100 sample_parse {ascii ''node-0'', ascii ''node-1''} (ascii ''[null]''))"
  have "1 < length ?g" by code_simp
  then have h: "?g ! 1 \<in> set ?g" by (rule nth_mem)
  have v: "node_value (?g ! 1) = JNull" by code_simp
  from expanded_mirrors [of 100 sample_parse "{ascii ''node-0'', ascii ''node-1''}" "ascii ''[null]''"] h v
  show ?thesis by blast
qed

text \<open>
  C10. The ids of the built nodes are \<open>node-0\<close>, \<open>node-1\<close>, ... in the order of the
  node list, hence pairwise distinct. For a document that parses, the node list is, up to
  positions and child lists, a prefix of the depth-first pre-order listing \<open>preorder\<close>
  of the visible tree numbered from 0, and the whole listing when the traversal returns;
  its first node is the root \<open>node-0\<close>, which is expanded exactly when \<open>node-0\<close> is in
  the expansion set.
\<close>

theorem node_ids:
  "map node_id (fst (createGraph stack JSON_parse E jsonInput)) =
     map node_name [0..<length (fst (createGraph stack JSON_parse E jsonInput))] \<and>
   distinct (map node_id (fst (createGraph stack JSON_parse E jsonInput))) \<and>
   (\<forall>D. truthy (trim jsonInput) \<and> JSON_parse jsonInput = Some D \<longrightarrow>
      prefix (map bare (fst (createGraph stack JSON_parse E jsonInput)))
             (preorder E D (ascii ''root'') None 0 0) \<and>
      (returns stack E D \<longrightarrow>
         map bare (fst (createGraph stack JSON_parse E jsonInput)) =
           preorder E D (ascii ''root'') None 0 0) \<and>
      node_id (hd (fst (createGraph stack JSON_parse E jsonInput))) = ascii ''node-0'' \<and>
      node_key (hd (fst (createGraph stack JSON_parse E jsonInput))) = ascii ''root'' \<and>
      node_value (hd (fst (createGraph stack JSON_parse E jsonInput))) = D \<and>
      node_parent (hd (fst (createGraph stack JSON_parse E jsonInput))) = None \<and>
      node_level (hd (fst (createGraph stack JSON_parse E jsonInput))) = 0 \<and>
      node_isExpanded (hd (fst (createGraph stack JSON_parse E jsonInput))) = (ascii ''node-0'' \<in> E))"
proof (intro conjI allI impI)
  let ?ns = "fst (createGraph stack JSON_parse E jsonInput)"
  show ids: "map node_id ?ns = map node_name [0..<length ?ns]"
  proof (cases stack JSON_parse E jsonInput rule: createGraph_cases)
    case empty
    then show ?thesis by simp
  next
    case (valid D)
    have "map node_id (positionNodes (nodes (build stack E D))) = map node_id (nodes (build stack E D))"
      by (rule positionNodes_map) simp
    with build_ids [of stack E D] show ?thesis by (simp add: valid(3))
  qed
  have "distinct (map node_name [0..<length ?ns])"
    by (simp add: distinct_map inj_on_def)
  then show "distinct (map node_id ?ns)" by (simp only: ids)
next
  fix D
  let ?ns = "fst (createGraph stack JSON_parse E jsonInput)"
  assume a: "truthy (trim jsonInput) \<and> JSON_parse jsonInput = Some D"
  then have cg: "?ns = positionNodes (nodes (build stack E D))" by (simp add: createGraph_valid)
  have bc: "map bare ?ns = map core (nodes (build stack E D))"
    unfolding cg by (rule bare_build)
  show "prefix (map bare ?ns) (preorder E D (ascii ''root'') None 0 0)"
    unfolding bc by (rule build_preorder(1))
  show "map bare ?ns = preorder E D (ascii ''root'') None 0 0" if "returns stack E D"
    unfolding bc using that by (rule build_preorder(2))
  from build_first [of stack E D] obtain ps where
    "map core (nodes (build stack E D)) = new_node E D (ascii ''root'') None 0 0 # ps"
    by auto
  with bc have "map bare ?ns = new_node E D (ascii ''root'') None 0 0 # ps" by simp
  then obtain r rest where ns: "?ns = r # rest" and r: "bare r = new_node E D (ascii ''root'') None 0 0"
    by (cases ?ns) auto
  from r have f: "node_id (bare r) = node_name 0" "node_key (bare r) = ascii ''root''"
    "node_value (bare r) = D" "node_parent (bare r) = None" "node_level (bare r) = 0"
    "node_isExpanded (bare r) = (node_name 0 \<in> E)"
    by simp_all
  have hd: "hd ?ns = r" by (simp add: ns)
  from f show "node_id (hd ?ns) = ascii ''node-0''" unfolding hd by (simp add: bare_def node_name_0)
  from f show "node_key (hd ?ns) = ascii ''root''" unfolding hd by (simp add: bare_def)
  from f show "node_value (hd ?ns) = D" unfolding hd by (simp add: bare_def)
  from f show "node_parent (hd ?ns) = None" unfolding hd by (simp add: bare_def)
  from f show "node_level (hd ?ns) = 0" unfolding hd by (simp add: bare_def)
  from f show "node_isExpanded (hd ?ns) = (ascii ''node-0'' \<in> E)"
    unfolding hd by (simp add: bare_def node_name_0)
qed

theorem node_ids_witness:
  "truthy (trim (ascii ''[null]'')) \<and> sample_parse (ascii ''[null]'') = Some (JArray [JNull]) \<and>
   returns 100 {ascii ''node-0''} (JArray [JNull :: unit json]) \<and>
   prefix (map bare (fst (createGraph 100 sample_parse {ascii ''node-0''} (ascii ''[null]''))))
          (preorder {ascii ''node-0''} (JArray [JNull :: unit json]) (ascii ''root'') None 0 0) \<and>
   map bare (fst (createGraph 100 sample_parse {ascii ''node-0''} (ascii ''[null]''))) =
     preorder {ascii ''node-0''} (JArray [JNull :: unit json]) (ascii ''root'') None 0 0 \<and>
   node_id (hd (fst (createGraph 100 sample_parse {ascii ''node-0''} (ascii ''[null]'')))) = ascii ''node-0'' \<and>
   node_isExpanded (hd (fst (createGraph 100 sample_parse {ascii ''node-0''} (ascii ''[null]'')))) =
     (ascii ''node-0'' \<in> {ascii ''node-0''})"
proof -
  have h1: "truthy (trim (ascii ''[null]''))" by code_simp
  have h2: "sample_parse (ascii ''[null]'') = Some (JArray [JNull])" by code_simp
  have h3: "returns 100 {ascii ''node-0''} (JArray [JNull :: unit json])" by code_simp
  note T = node_ids [of 100 sample_parse "{ascii ''node-0''}" "ascii ''[null]''",
      THEN conjunct2, THEN conjunct2, rule_format, of "JArray [JNull]", OF conjI [OF h1 h2]]
  note p = T [THEN conjunct1]
  note e = T [THEN conjunct2, THEN conjunct1, THEN mp, OF h3]
  note i = T [THEN conjunct2, THEN conjunct2, THEN conjunct1]
  note x = T [THEN conjunct2, THEN conjunct2, THEN conjunct2, THEN conjunct2, THEN conjunct2,
      THEN conjunct2, THEN conjunct2]
  from h1 h2 h3 p e i x show ?thesis by (intro conjI)
qed

section \<open>Properties of the zoom\<close>

text \<open>
  C7 fails on the code. Starting from the zoom factor 0.8, a \<^verbatim>\<open>touchstart\<close> and a
  \<^verbatim>\<open>touchmove\<close> whose two touch points lie \<open>10^200\<close> apart leave the zoom factor
  \<^verbatim>\<open>NaN\<close>, outside the interval from 0.1 to 3: both distances overflow to
  \<^verbatim>\<open>Infinity\<close>, their quotient is \<^verbatim>\<open>NaN\<close>, and \<^verbatim>\<open>Math.min\<close> and \<^verbatim>\<open>Math.max\<close>
  return \<^verbatim>\<open>NaN\<close> for it.
\<close>

theorem zoom_becomes_NaN:
  "zoom (foldl dispatch \<lparr>zoom = Fin 0.8, lastTouchDistance = None\<rparr>
      [TouchStart [\<lparr>clientX = 0, clientY = 0\<rparr>, \<lparr>clientX = 10 ^ 200, clientY = 0\<rparr>],
       TouchMove [\<lparr>clientX = 0, clientY = 0\<rparr>, \<lparr>clientX = 10 ^ 200, clientY = 0\<rparr>]]) = NaN"
  by (simp add: handleTouchStart_def handleTouchMove_def getTouchDistance_def Let_def
      Math_pow2_def js_sub_def overflow_def Math_max_def Math_min_def)

end
